theory Spec2Isabelle
  imports Complex_Main
begin

section \<open>Python values used by pagerank.py\<close>

text \<open>
  The program of \<^verbatim>\<open>src/Ai_Project/pagerank.py\<close> computes with Python floats.  The
  embedding computes with exact real numbers: a property stated of \<^verbatim>\<open>transition_model\<close>,
  \<^verbatim>\<open>sample_pagerank\<close> or \<^verbatim>\<open>iterate_pagerank\<close> is a property of the program under exact
  arithmetic.  Whether the loop of \<^verbatim>\<open>iterate_pagerank\<close> ends depends on the rounding of the
  floats; the functions with the suffix \<open>_fp\<close> repeat it in double arithmetic.

  A Python \<^verbatim>\<open>dict\<close> is an association list in insertion order (a \<^verbatim>\<open>for\<close> over a
  dict walks its keys in that order); a dict has no key twice.  A Python \<^verbatim>\<open>set\<close> is the
  list of its elements in the order a \<^verbatim>\<open>for\<close> walks them; a set has no element twice.
\<close>

datatype py_error = KeyError | ZeroDivisionError | IndexError | ValueError

type_synonym ('k, 'v) dict = "('k \<times> 'v) list"

text \<open>The corpus built by \<^verbatim>\<open>crawl\<close>: page name to the set of pages it links to.\<close>

type_synonym 'p corpus = "('p, 'p list) dict"

definition keys :: "('k, 'v) dict \<Rightarrow> 'k list" where
  "keys d = map fst d"

definition values_of :: "('k, 'v) dict \<Rightarrow> 'v list" where
  "values_of d = map snd d"

text \<open>\<^verbatim>\<open>d[k]\<close>: raises KeyError when the key is absent.\<close>

fun getitem :: "('k, 'v) dict \<Rightarrow> 'k \<Rightarrow> py_error + 'v" where
  "getitem [] k = Inl KeyError"
| "getitem ((k', v) # d) k = (if k' = k then Inr v else getitem d k)"

text \<open>\<^verbatim>\<open>d[k] = v\<close>: replaces the value of a present key in place, appends a new key.\<close>

fun setitem :: "('k, 'v) dict \<Rightarrow> 'k \<Rightarrow> 'v \<Rightarrow> ('k, 'v) dict" where
  "setitem [] k v = [(k, v)]"
| "setitem ((k', v') # d) k v =
     (if k' = k then (k', v) # d else (k', v') # setitem d k v)"

text \<open>Sequencing of a step that may raise.\<close>

fun bind_err :: "py_error + 'a \<Rightarrow> ('a \<Rightarrow> py_error + 'b) \<Rightarrow> py_error + 'b" where
  "bind_err (Inl e) f = Inl e"
| "bind_err (Inr x) f = f x"

text \<open>A \<^verbatim>\<open>for\<close> loop over a list whose body may raise: the first exception ends it.\<close>

fun for_each :: "('a \<Rightarrow> 's \<Rightarrow> py_error + 's) \<Rightarrow> 'a list \<Rightarrow> 's \<Rightarrow> py_error + 's" where
  "for_each body [] s = Inr s"
| "for_each body (x # xs) s = bind_err (body x s) (for_each body xs)"

section \<open>The link graph\<close>

text \<open>
  The invariants of a link graph that the theorems use: it is a dict (no page is a key
  twice), every set of outgoing links is a set (no link twice), and every link target is
  itself a key (closed universe).  \<^verbatim>\<open>crawl\<close> establishes all three.
\<close>

definition closed_universe :: "'p corpus \<Rightarrow> bool" where
  "closed_universe corpus = list_all (\<lambda>(page, links). list_all (\<lambda>l. l \<in> set (keys corpus)) links) corpus"

definition link_graph :: "'p corpus \<Rightarrow> bool" where
  "link_graph corpus \<longleftrightarrow>
     distinct (keys corpus) \<and> list_all (\<lambda>(page, links). distinct links) corpus \<and> closed_universe corpus"

section \<open>transition_model\<close>

text \<open>
  \<^verbatim>\<open>
  dist = {}
  links = corpus[page]
  if len(links) == 0:
      for link in corpus:
          dist[link] = 1 / len(corpus)
  else:
      for link in corpus:
          dist[link] = (1 - damping_factor) / len(corpus)
      for link in links:
          dist[link] += damping_factor / len(links)
  return dist
  \<close>
  The divisions by \<^verbatim>\<open>len(corpus)\<close> stand inside loops over the corpus, so they are
  evaluated only when the corpus has a page; the division by \<^verbatim>\<open>len(links)\<close> stands in the
  branch where that length is not zero.
\<close>

definition transition_model :: "'p corpus \<Rightarrow> 'p \<Rightarrow> real \<Rightarrow> py_error + ('p, real) dict" where
  "transition_model corpus page damping_factor =
     bind_err (getitem corpus page) (\<lambda>links.
       if length links = 0 then
         Inr (fold (\<lambda>link dist. setitem dist link (1 / real (length corpus))) (keys corpus) [])
       else
         for_each
           (\<lambda>link dist. bind_err (getitem dist link) (\<lambda>v.
              Inr (setitem dist link (v + damping_factor / real (length links)))))
           links
           (fold (\<lambda>link dist. setitem dist link ((1 - damping_factor) / real (length corpus)))
              (keys corpus) []))"

section \<open>The random source\<close>

text \<open>
  \<^verbatim>\<open>sample_pagerank\<close> draws from Python's global generator.  The embedding takes the
  outcomes of the draws as an argument, so that a property proved for every random source
  holds for every outcome of the draws: \<open>start_index\<close> is the integer the generator draws
  for the one call of \<^verbatim>\<open>random.choice\<close> (taken modulo the length of the sequence), and
  \<open>uniform i\<close> is the value of the \<open>i\<close>-th call of \<^verbatim>\<open>random()\<close>, one per call of
  \<^verbatim>\<open>random.choices\<close>.
\<close>

record random_source =
  start_index :: nat
  uniform :: "nat \<Rightarrow> real"

text \<open>\<^verbatim>\<open>random.choice(seq)\<close>: IndexError on an empty sequence, else one of its elements.\<close>

definition choice :: "nat \<Rightarrow> 'a list \<Rightarrow> py_error + 'a" where
  "choice k seq = (if seq = [] then Inl IndexError else Inr (seq ! (k mod length seq)))"

text \<open>\<^verbatim>\<open>itertools.accumulate\<close>: the running sums of the weights.\<close>

fun accumulate :: "real \<Rightarrow> real list \<Rightarrow> real list" where
  "accumulate acc [] = []"
| "accumulate acc (w # ws) = (acc + w) # accumulate (acc + w) ws"

text \<open>
  \<^verbatim>\<open>bisect.bisect_right(a, x, lo, hi)\<close>:
  \<^verbatim>\<open>
  while lo < hi:
      mid = (lo + hi) // 2
      if x < a[mid]: hi = mid
      else: lo = mid + 1
  return lo
  \<close>
  It reads \<open>a\<close> only at indices below \<open>hi\<close>.
\<close>

function bisect :: "real list \<Rightarrow> real \<Rightarrow> nat \<Rightarrow> nat \<Rightarrow> nat" where
  "bisect a x lo hi =
     (if lo < hi then
        (let mid = (lo + hi) div 2 in
         if x < a ! mid then bisect a x lo mid else bisect a x (mid + 1) hi)
      else lo)"
  by pat_completeness auto
termination
  by (relation "measure (\<lambda>(a, x, lo, hi). hi - lo)") auto

text \<open>
  \<^verbatim>\<open>random.choices(population, weights, k=1)[0]\<close>, as the standard library computes it:
  \<^verbatim>\<open>
  n = len(population)
  cum_weights = list(accumulate(weights))
  if len(cum_weights) != n: raise ValueError
  total = cum_weights[-1] + 0.0
  if total <= 0.0: raise ValueError
  hi = n - 1
  return [population[bisect(cum_weights, random() * total, 0, hi)]]
  \<close>
  \<open>u\<close> is the value of \<^verbatim>\<open>random()\<close>.
\<close>

definition choices :: "real \<Rightarrow> 'a list \<Rightarrow> real list \<Rightarrow> py_error + 'a" where
  "choices u population weights =
     (let n = length population; cum_weights = accumulate 0 weights in
      if length cum_weights \<noteq> n then Inl ValueError
      else if cum_weights = [] then Inl IndexError
      else
        (let total = last cum_weights in
         if total \<le> 0 then Inl ValueError
         else Inr (population ! bisect cum_weights (u * total) 0 (n - 1))))"

section \<open>sample_pagerank\<close>

text \<open>
  \<^verbatim>\<open>
  page_rank = {}
  for key in corpus.keys():
      page_rank[key] = 0
  sample_page = random.choice(list(corpus.keys()))
  for i in range(1, n):
      page_rank[sample_page] += 1
      page_dist = transition_model(corpus, sample_page, damping_factor)
      sample_page = random.choices(population=list(page_dist), weights=page_dist.values(), k=1)[0]
  for key in page_rank.keys():
      page_rank[key] /= n
  return page_rank
  \<close>
  The state of the walk is the pair of the visit counters and the current page.
\<close>

definition zero_counts :: "'p corpus \<Rightarrow> ('p, int) dict" where
  "zero_counts corpus = fold (\<lambda>key page_rank. setitem page_rank key 0) (keys corpus) []"

text \<open>One pass of the body of the sampling loop; \<open>u\<close> is the value \<^verbatim>\<open>random()\<close> returns in it.\<close>

definition sample_step ::
  "'p corpus \<Rightarrow> real \<Rightarrow> real \<Rightarrow> ('p, int) dict \<times> 'p \<Rightarrow> py_error + (('p, int) dict \<times> 'p)" where
  "sample_step corpus damping_factor u st =
     (case st of (page_rank, sample_page) \<Rightarrow>
        bind_err (getitem page_rank sample_page) (\<lambda>c.
        bind_err (transition_model corpus sample_page damping_factor) (\<lambda>page_dist.
        bind_err (choices u (keys page_dist) (values_of page_dist)) (\<lambda>next_page.
          Inr (setitem page_rank sample_page (c + 1), next_page)))))"

text \<open>
  \<open>sample_loop corpus d us i m st\<close>: \<open>m\<close> passes of the body from the state \<open>st\<close>, the
  first of them using \<open>us i\<close>.
\<close>

fun sample_loop ::
  "'p corpus \<Rightarrow> real \<Rightarrow> (nat \<Rightarrow> real) \<Rightarrow> nat \<Rightarrow> nat \<Rightarrow> ('p, int) dict \<times> 'p
     \<Rightarrow> py_error + (('p, int) dict \<times> 'p)" where
  "sample_loop corpus damping_factor us i 0 st = Inr st"
| "sample_loop corpus damping_factor us i (Suc m) st =
     bind_err (sample_step corpus damping_factor (us i) st)
       (sample_loop corpus damping_factor us (Suc i) m)"

text \<open>
  The last loop, \<^verbatim>\<open>page_rank[key] /= n\<close> for every key: the quotients are floats where
  the counters were ints, so the embedding collects them in a new dict, in the same order.
\<close>

definition normalize :: "('p, int) dict \<Rightarrow> int \<Rightarrow> py_error + ('p, real) dict" where
  "normalize page_rank n =
     for_each
       (\<lambda>key ranks. bind_err (getitem page_rank key) (\<lambda>c.
          if n = 0 then Inl ZeroDivisionError
          else Inr (setitem ranks key (real_of_int c / real_of_int n))))
       (keys page_rank) []"

text \<open>\<^verbatim>\<open>range(1, n)\<close> has \<open>n - 1\<close> elements for \<open>1 \<le> n\<close> and none otherwise.\<close>

definition sample_pagerank ::
  "'p corpus \<Rightarrow> real \<Rightarrow> int \<Rightarrow> random_source \<Rightarrow> py_error + ('p, real) dict" where
  "sample_pagerank corpus damping_factor n rs =
     bind_err (choice (start_index rs) (keys corpus)) (\<lambda>sample_page.
     bind_err (sample_loop corpus damping_factor (uniform rs) 0 (nat (n - 1))
                 (zero_counts corpus, sample_page)) (\<lambda>st.
       normalize (fst st) n))"

section \<open>iterate_pagerank\<close>

text \<open>
  The inner loop of a round, for one \<^verbatim>\<open>current_page\<close>:
  \<^verbatim>\<open>
  sum = 0.0
  for page in corpus:
      if current_page in corpus[page]:
          NumLinks = len(corpus[page])
          sum += page_rank[page] / NumLinks
      if not corpus[page]:
          sum += page_rank[page] / N
  \<close>
\<close>

definition link_sum :: "'p corpus \<Rightarrow> nat \<Rightarrow> ('p, real) dict \<Rightarrow> 'p \<Rightarrow> py_error + real" where
  "link_sum corpus N page_rank current_page =
     for_each
       (\<lambda>page sum. bind_err (getitem corpus page) (\<lambda>links.
          bind_err
            (if current_page \<in> set links then
               bind_err (getitem page_rank page) (\<lambda>r. Inr (sum + r / real (length links)))
             else Inr sum)
            (\<lambda>sum.
               if links = [] then bind_err (getitem page_rank page) (\<lambda>r. Inr (sum + r / real N))
               else Inr sum)))
       (keys corpus) 0"

text \<open>
  The first loop of a round fills \<^verbatim>\<open>calculated_pr\<close>:
  \<^verbatim>\<open>
  for current_page in page_rank:
      ...
      d_times_sum = D * sum
      calculated_pr[current_page] = random_choice + d_times_sum
  \<close>
\<close>

definition calculate ::
  "'p corpus \<Rightarrow> real \<Rightarrow> nat \<Rightarrow> real \<Rightarrow> ('p, real) dict \<Rightarrow> ('p, real) dict
     \<Rightarrow> py_error + ('p, real) dict" where
  "calculate corpus D N random_choice page_rank calculated_pr =
     for_each
       (\<lambda>current_page calculated_pr. bind_err (link_sum corpus N page_rank current_page) (\<lambda>sum.
          Inr (setitem calculated_pr current_page (random_choice + D * sum))))
       (keys page_rank) calculated_pr"

text \<open>
  The second loop of a round tests for convergence and stores the new ranks:
  \<^verbatim>\<open>
  condition = False
  for current_page in page_rank:
      if abs(page_rank[current_page] - calculated_pr[current_page]) > 0.001:
          condition = True
      page_rank[current_page] = calculated_pr[current_page]
  \<close>
\<close>

definition store ::
  "('p, real) dict \<Rightarrow> ('p, real) dict \<Rightarrow> py_error + (bool \<times> ('p, real) dict)" where
  "store page_rank calculated_pr =
     for_each
       (\<lambda>current_page st. case st of (condition, page_rank) \<Rightarrow>
          bind_err (getitem page_rank current_page) (\<lambda>old.
          bind_err (getitem calculated_pr current_page) (\<lambda>new.
            Inr (if \<bar>old - new\<bar> > 1 / 1000 then True else condition,
                 setitem page_rank current_page new))))
       (keys page_rank) (False, page_rank)"

text \<open>
  One pass of the body of the \<^verbatim>\<open>while\<close> loop, on the pair of \<^verbatim>\<open>page_rank\<close> and
  \<^verbatim>\<open>calculated_pr\<close>: the value of \<^verbatim>\<open>condition\<close> after it, and the two dicts.
\<close>

definition pagerank_round ::
  "'p corpus \<Rightarrow> real \<Rightarrow> nat \<Rightarrow> real \<Rightarrow> ('p, real) dict \<times> ('p, real) dict
     \<Rightarrow> py_error + (bool \<times> ('p, real) dict \<times> ('p, real) dict)" where
  "pagerank_round corpus D N random_choice st =
     (case st of (page_rank, calculated_pr) \<Rightarrow>
        bind_err (calculate corpus D N random_choice page_rank calculated_pr) (\<lambda>calculated_pr.
        bind_err (store page_rank calculated_pr) (\<lambda>(condition, page_rank).
          Inr (condition, page_rank, calculated_pr))))"

text \<open>
  \<^verbatim>\<open>while condition:\<close> with \<^verbatim>\<open>condition = True\<close> before it: the body runs, and runs again
  as long as it leaves the condition true.  The loop has no bound on its rounds, so the
  result is an option: \<open>None\<close> is the loop that never ends.
\<close>

partial_function (option) iterate_loop ::
  "'p corpus \<Rightarrow> real \<Rightarrow> nat \<Rightarrow> real \<Rightarrow> ('p, real) dict \<times> ('p, real) dict
     \<Rightarrow> (py_error + ('p, real) dict) option" where
  "iterate_loop corpus D N random_choice st =
     (case pagerank_round corpus D N random_choice st of
        Inl e \<Rightarrow> Some (Inl e)
      | Inr (condition, st') \<Rightarrow>
          if condition then iterate_loop corpus D N random_choice st'
          else Some (Inr (fst st')))"

declare iterate_loop.simps [code]

text \<open>
  \<^verbatim>\<open>
  N = len(corpus)
  D = damping_factor
  random_choice = (1 - D) / N
  page_rank = {}
  calculated_pr = {}
  for page in corpus:
      page_rank[page] = 1 / N
  \<close>
  The division raises ZeroDivisionError for the empty corpus.
\<close>

definition initial_ranks :: "'p corpus \<Rightarrow> ('p, real) dict" where
  "initial_ranks corpus =
     fold (\<lambda>page page_rank. setitem page_rank page (1 / real (length corpus))) (keys corpus) []"

definition iterate_pagerank :: "'p corpus \<Rightarrow> real \<Rightarrow> (py_error + ('p, real) dict) option" where
  "iterate_pagerank corpus damping_factor =
     (let N = length corpus in
      if N = 0 then Some (Inl ZeroDivisionError)
      else iterate_loop corpus damping_factor N ((1 - damping_factor) / real N)
             (initial_ranks corpus, []))"

text \<open>
  The rounds of the loop one by one: \<open>rounds corpus d k\<close> is the value of \<^verbatim>\<open>condition\<close> and
  the two dicts after the body has run \<open>k\<close> times from the initial state, whatever the
  conditions in between (before the first round the condition is \<^verbatim>\<open>True\<close>).
\<close>

fun rounds ::
  "'p corpus \<Rightarrow> real \<Rightarrow> nat \<Rightarrow> py_error + (bool \<times> ('p, real) dict \<times> ('p, real) dict)" where
  "rounds corpus damping_factor 0 = Inr (True, initial_ranks corpus, [])"
| "rounds corpus damping_factor (Suc k) =
     bind_err (rounds corpus damping_factor k) (\<lambda>(condition, st).
       pagerank_round corpus damping_factor (length corpus)
         ((1 - damping_factor) / real (length corpus)) st)"

section \<open>The recurrence of the iterative estimator\<close>

text \<open>
  The recurrence as the specification words it, for ranks given as a function of the page:
  \<open>(1 - d) / N\<close>, plus \<open>d\<close> times the sum of \<open>rank Q / outDegree Q\<close> over the pages \<open>Q\<close> that
  link to \<open>P\<close>, plus \<open>d\<close> times the sum of \<open>rank Q / N\<close> over the pages \<open>Q\<close> without outgoing
  links.  \<open>N\<close> is the number of pages and the out-degree of a page the number of its links.
\<close>

definition recurrence :: "'p corpus \<Rightarrow> real \<Rightarrow> ('p \<Rightarrow> real) \<Rightarrow> 'p \<Rightarrow> real" where
  "recurrence corpus d rank P =
     (1 - d) / real (card (set (keys corpus)))
     + d * (\<Sum>(Q, links) \<leftarrow> filter (\<lambda>(Q, links). P \<in> set links) corpus.
              rank Q / real (card (set links)))
     + d * (\<Sum>(Q, links) \<leftarrow> filter (\<lambda>(Q, links). set links = {}) corpus.
              rank Q / real (card (set (keys corpus))))"

text \<open>
  The same update in the order the program adds it up: what one page of the corpus adds
  to the \<^verbatim>\<open>sum\<close> of \<open>P\<close> in the inner loop, and the new rank of \<open>P\<close>.
\<close>

definition contribution :: "nat \<Rightarrow> ('p \<Rightarrow> real) \<Rightarrow> 'p \<Rightarrow> 'p \<times> 'p list \<Rightarrow> real" where
  "contribution N rank P entry =
     (case entry of (page, links) \<Rightarrow>
        (if P \<in> set links then rank page / real (length links) else 0)
        + (if links = [] then rank page / real N else 0))"

definition new_rank :: "'p corpus \<Rightarrow> real \<Rightarrow> ('p \<Rightarrow> real) \<Rightarrow> 'p \<Rightarrow> real" where
  "new_rank corpus d rank P =
     (1 - d) / real (length corpus)
     + d * sum_list (map (contribution (length corpus) rank P) corpus)"

text \<open>The dict that gives every page of the corpus its rank, in the order of the corpus.\<close>

definition rank_dict :: "'p corpus \<Rightarrow> ('p \<Rightarrow> real) \<Rightarrow> ('p, real) dict" where
  "rank_dict corpus rank = map (\<lambda>P. (P, rank P)) (keys corpus)"

text \<open>Whether a round started from \<open>rank\<close> moves the rank of some page by more than 0.001.\<close>

definition moves :: "'p corpus \<Rightarrow> real \<Rightarrow> ('p \<Rightarrow> real) \<Rightarrow> bool" where
  "moves corpus d rank \<longleftrightarrow>
     list_ex (\<lambda>P. \<bar>rank P - new_rank corpus d rank P\<bar> > 1 / 1000) (keys corpus)"

section \<open>Python floats\<close>














section \<open>iterate_pagerank in double arithmetic\<close>













section \<open>Lemmas on dicts\<close>

lemma keys_simps [simp]: "keys [] = []" "keys ((k, v) # d) = k # keys d"
  by (simp_all add: keys_def)

lemma keys_append [simp]: "keys (d @ e) = keys d @ keys e"
  by (simp add: keys_def)

lemma keys_map_pair [simp]: "keys (map (\<lambda>k. (k, f k)) ks) = ks"
  by (simp add: keys_def comp_def)

lemma values_map_pair [simp]: "values_of (map (\<lambda>k. (k, f k)) ks) = map f ks"
  by (simp add: values_of_def comp_def)

lemma setitem_fresh: "k \<notin> set (keys d) \<Longrightarrow> setitem d k v = d @ [(k, v)]"
  by (induction d) auto

lemma fold_setitem_fresh:
  "distinct ks \<Longrightarrow> set ks \<inter> set (keys pre) = {} \<Longrightarrow>
   fold (\<lambda>k dist. setitem dist k (f k)) ks pre = pre @ map (\<lambda>k. (k, f k)) ks"
proof (induction ks arbitrary: pre)
  case Nil
  then show ?case by simp
next
  case (Cons k ks)
  from Cons.prems have fresh: "k \<notin> set (keys pre)" by auto
  from Cons.prems have "distinct ks" "set ks \<inter> set (keys (pre @ [(k, f k)])) = {}" by auto
  from Cons.IH [OF this] fresh show ?case by (simp add: setitem_fresh)
qed

lemma fold_setitem_empty:
  "distinct ks \<Longrightarrow> fold (\<lambda>k dist. setitem dist k (f k)) ks [] = map (\<lambda>k. (k, f k)) ks"
  using fold_setitem_fresh [of ks "[]" f] by simp

lemma getitem_map_pair:
  "getitem (map (\<lambda>k. (k, g k)) ks) l = (if l \<in> set ks then Inr (g l) else Inl KeyError)"
  by (induction ks) auto

lemma setitem_map_pair:
  "l \<in> set ks \<Longrightarrow> distinct ks \<Longrightarrow>
   setitem (map (\<lambda>k. (k, g k)) ks) l v = map (\<lambda>k. (k, if k = l then v else g k)) ks"
  by (induction ks) auto

lemma add_links_closed:
  "distinct ks \<Longrightarrow> distinct links \<Longrightarrow> set links \<subseteq> set ks \<Longrightarrow>
   for_each (\<lambda>link dist. bind_err (getitem dist link) (\<lambda>v. Inr (setitem dist link (v + (c::real)))))
     links (map (\<lambda>k. (k, g k)) ks)
   = Inr (map (\<lambda>k. (k, g k + (if k \<in> set links then c else 0))) ks)"
proof (induction links arbitrary: g)
  case Nil
  then show ?case by simp
next
  case (Cons l links)
  let ?g = "\<lambda>k. if k = l then g l + c else g k"
  from Cons.prems have l: "l \<in> set ks" "l \<notin> set links" by auto
  from Cons.prems have "distinct links" "set links \<subseteq> set ks" by auto
  from Cons.IH [OF Cons.prems(1) this, of ?g] l Cons.prems(1)
  show ?case by (auto simp: getitem_map_pair setitem_map_pair)
qed


lemma getitem_present: "page \<in> set (keys corpus) \<Longrightarrow> \<exists>links. getitem corpus page = Inr links"
  by (induction corpus) auto

lemma getitem_Inr_mem: "getitem corpus page = Inr links \<Longrightarrow> (page, links) \<in> set corpus"
  by (induction corpus) (auto split: if_splits)

section \<open>Properties of transition_model\<close>

lemma link_graph_links:
  assumes "link_graph corpus" "(page, links) \<in> set corpus"
  shows "distinct links" "set links \<subseteq> set (keys corpus)"
  using assms by (auto simp: link_graph_def closed_universe_def list_all_iff)

lemma length_keys [simp]: "length (keys d) = length d"
  by (simp add: keys_def)

lemma transition_model_closed:
  assumes "link_graph corpus" "getitem corpus page = Inr links"
  shows "transition_model corpus page d =
     Inr (map (\<lambda>q. (q, if links = [] then 1 / real (length corpus)
                        else (1 - d) / real (length corpus)
                             + (if q \<in> set links then d / real (length links) else 0)))
            (keys corpus))"
proof -
  have dk: "distinct (keys corpus)" using assms(1) by (simp add: link_graph_def)
  have mem: "(page, links) \<in> set corpus" using assms(2) by (rule getitem_Inr_mem)
  note ls = link_graph_links [OF assms(1) mem]
  show ?thesis
    using assms(2) by (simp add: transition_model_def fold_setitem_empty [OF dk]
        add_links_closed [OF dk ls])
qed

lemma sum_list_indicator:
  fixes c :: real
  assumes "distinct ks" "distinct links" "set links \<subseteq> set ks"
  shows "sum_list (map (\<lambda>q. if q \<in> set links then c else 0) ks) = real (length links) * c"
proof -
  have "sum_list (map (\<lambda>q. if q \<in> set links then c else 0) ks)
        = sum (\<lambda>q. if q \<in> set links then c else 0) (set ks)"
    using assms(1) by (simp add: sum_list_distinct_conv_sum_set)
  also have "\<dots> = sum (\<lambda>q. c) (set ks \<inter> set links)"
    by (rule sum.inter_restrict [symmetric]) simp
  also have "set ks \<inter> set links = set links" using assms(3) by auto
  also have "sum (\<lambda>q. c) (set links) = real (length links) * c"
    using assms(2) by (simp add: distinct_card)
  finally show ?thesis .
qed

lemma transition_model_sum:
  assumes "link_graph corpus" "getitem corpus page = Inr links" "transition_model corpus page d = Inr pd"
  shows "sum_list (values_of pd) = 1"
proof -
  have dk: "distinct (keys corpus)" using assms(1) by (simp add: link_graph_def)
  have mem: "(page, links) \<in> set corpus" using assms(2) by (rule getitem_Inr_mem)
  note ls = link_graph_links [OF assms(1) mem]
  from mem have ne: "corpus \<noteq> []" by auto
  show ?thesis
  proof (cases "links = []")
    case True
    with assms transition_model_closed [OF assms(1,2), of d] ne
    show ?thesis by (auto simp: sum_list_triv)
  next
    case False
    have "pd = map (\<lambda>q. (q, (1 - d) / real (length corpus)
                             + (if q \<in> set links then d / real (length links) else 0))) (keys corpus)"
      using assms(3) transition_model_closed [OF assms(1,2), of d] False by simp
    then have "sum_list (values_of pd) =
       sum_list (map (\<lambda>q. (1 - d) / real (length corpus)) (keys corpus))
       + sum_list (map (\<lambda>q. if q \<in> set links then d / real (length links) else 0) (keys corpus))"
      by (simp add: sum_list_addf)
    also have "\<dots> = (1 - d) + d"
      using ne False by (simp add: sum_list_triv sum_list_indicator [OF dk ls])
    finally show ?thesis by simp
  qed
qed


lemma keys_setitem_present: "k \<in> set (keys d) \<Longrightarrow> keys (setitem d k v) = keys d"
  by (induction d) auto


lemma getitem_Inr_iff: "(\<exists>v. getitem d k = Inr v) \<longleftrightarrow> k \<in> set (keys d)"
  by (induction d) auto




text \<open>
  Claim C1.  For a non-empty link graph, a page that is a key and a damping factor in
  (0,1), \<^verbatim>\<open>transition_model\<close> returns a dict over the pages of the corpus in which, when
  the page has no outgoing links, every page has 1/N, and otherwise every page has
  (1 - d)/N, plus d/L when the page links to it; N is the number of pages and L the number
  of outgoing links of the page.
\<close>
theorem transition_model_probabilities:
  assumes "link_graph corpus" "corpus \<noteq> []" "page \<in> set (keys corpus)" "0 < d" "d < 1"
  shows "\<exists>links pd. getitem corpus page = Inr links \<and> transition_model corpus page d = Inr pd \<and>
     keys pd = keys corpus \<and>
     (\<forall>q \<in> set (keys corpus). getitem pd q = Inr
        (if set links = {} then 1 / real (card (set (keys corpus)))
         else (1 - d) / real (card (set (keys corpus)))
              + (if q \<in> set links then d / real (card (set links)) else 0)))"
proof -
  obtain links where links: "getitem corpus page = Inr links"
    using getitem_present [OF assms(3)] by blast
  have dk: "distinct (keys corpus)" using assms(1) by (simp add: link_graph_def)
  have dl: "distinct links"
    using link_graph_links(1) [OF assms(1) getitem_Inr_mem [OF links]] .
  have N: "card (set (keys corpus)) = length corpus" using dk by (simp add: distinct_card)
  have L: "card (set links) = length links" using dl by (simp add: distinct_card)
  define pd where "pd = map (\<lambda>q. (q, if links = [] then 1 / real (length corpus)
                        else (1 - d) / real (length corpus)
                             + (if q \<in> set links then d / real (length links) else 0)))
            (keys corpus)"
  have tm: "transition_model corpus page d = Inr pd"
    unfolding pd_def by (rule transition_model_closed [OF assms(1) links])
  have k: "keys pd = keys corpus" unfolding pd_def by simp
  have v: "\<forall>q \<in> set (keys corpus). getitem pd q = Inr
        (if set links = {} then 1 / real (card (set (keys corpus)))
         else (1 - d) / real (card (set (keys corpus)))
              + (if q \<in> set links then d / real (card (set links)) else 0))"
    unfolding pd_def N L by (simp add: getitem_map_pair)
  from links tm k v show ?thesis by blast
qed

theorem transition_model_probabilities_witness:
  "link_graph [(''a'', [''b'']), (''b'', [''a'', ''c'']), (''c'', [])] \<and>
   (\<exists>pd. transition_model [(''a'', [''b'']), (''b'', [''a'', ''c'']), (''c'', [])] ''b'' (85 / 100) = Inr pd \<and>
      getitem pd ''a'' = Inr (19 / 40) \<and> getitem pd ''b'' = Inr (1 / 20) \<and> getitem pd ''c'' = Inr (19 / 40))"
proof -
  let ?c = "[(''a'', [''b'']), (''b'', [''a'', ''c'']), (''c'', [])]"
  have g: "link_graph ?c"
    by (simp add: link_graph_def closed_universe_def)
  from transition_model_probabilities [OF g, of "''b''" "85 / 100"]
  obtain links pd where l: "getitem ?c ''b'' = Inr links"
    and t: "transition_model ?c ''b'' (85 / 100) = Inr pd"
    and v: "\<forall>q \<in> set (keys ?c). getitem pd q = Inr
        (if set links = {} then 1 / real (card (set (keys ?c)))
         else (1 - 85 / 100) / real (card (set (keys ?c)))
              + (if q \<in> set links then (85 / 100) / real (card (set links)) else 0))"
    by auto
  from l have links: "links = [''a'', ''c'']" by simp
  from v have "getitem pd ''a'' = Inr (19 / 40) \<and> getitem pd ''b'' = Inr (1 / 20) \<and> getitem pd ''c'' = Inr (19 / 40)"
    unfolding links by simp
  with g t show ?thesis by blast
qed

text \<open>
  Claim C3.  For a non-empty link graph, a page that is a key and a damping factor in
  (0,1), the dict returned by \<^verbatim>\<open>transition_model\<close> has exactly the pages of the corpus as
  keys and its values sum to 1 (in exact arithmetic).
\<close>
theorem transition_model_is_distribution:
  assumes "link_graph corpus" "corpus \<noteq> []" "page \<in> set (keys corpus)" "0 < d" "d < 1"
  shows "\<exists>pd. transition_model corpus page d = Inr pd \<and>
     distinct (keys pd) \<and> set (keys pd) = set (keys corpus) \<and> sum_list (values_of pd) = 1"
proof -
  obtain links where links: "getitem corpus page = Inr links"
    using getitem_present [OF assms(3)] by blast
  have dk: "distinct (keys corpus)" using assms(1) by (simp add: link_graph_def)
  define pd where "pd = map (\<lambda>q. (q, if links = [] then 1 / real (length corpus)
                        else (1 - d) / real (length corpus)
                             + (if q \<in> set links then d / real (length links) else 0)))
            (keys corpus)"
  have tm: "transition_model corpus page d = Inr pd"
    unfolding pd_def by (rule transition_model_closed [OF assms(1) links])
  have k: "keys pd = keys corpus" unfolding pd_def by simp
  have "sum_list (values_of pd) = 1"
    by (rule transition_model_sum [OF assms(1) links tm])
  with tm k dk show ?thesis by simp
qed

theorem transition_model_is_distribution_witness:
  "link_graph [(''a'', [''b'']), (''b'', [''a'', ''c'']), (''c'', [])] \<and>
   (\<exists>pd. transition_model [(''a'', [''b'']), (''b'', [''a'', ''c'']), (''c'', [])] ''b'' (85 / 100) = Inr pd \<and>
      set (keys pd) = {''a'', ''b'', ''c''} \<and> sum_list (values_of pd) = 1)"
proof -
  let ?c = "[(''a'', [''b'']), (''b'', [''a'', ''c'']), (''c'', [])]"
  have g: "link_graph ?c"
    by (simp add: link_graph_def closed_universe_def)
  from transition_model_is_distribution [OF g, of "''b''" "85 / 100"]
  obtain pd where t: "transition_model ?c ''b'' (85 / 100) = Inr pd"
    and k: "set (keys pd) = set (keys ?c)" and s: "sum_list (values_of pd) = 1"
    by auto
  from k have "set (keys pd) = {''a'', ''b'', ''c''}" by simp
  with g t s show ?thesis by blast
qed

section \<open>Lemmas on the random source\<close>

declare bisect.simps [simp del]

lemma bisect_bounds: "lo \<le> hi \<Longrightarrow> lo \<le> bisect a x lo hi \<and> bisect a x lo hi \<le> hi"
proof (induction a x lo hi rule: bisect.induct)
  case (1 a x lo hi)
  show ?case
  proof (cases "lo < hi")
    case False
    with "1.prems" show ?thesis by (subst bisect.simps, subst bisect.simps) simp
  next
    case True
    define mid where "mid = (lo + hi) div 2"
    have m: "lo \<le> mid" "mid < hi" using True by (simp_all add: mid_def)
    show ?thesis
    proof (cases "x < a ! mid")
      case True
      have "lo \<le> bisect a x lo mid \<and> bisect a x lo mid \<le> mid"
        using "1.IH"(1) [OF \<open>lo < hi\<close> mid_def True] m by simp
      moreover have "bisect a x lo hi = bisect a x lo mid"
        using \<open>lo < hi\<close> True by (subst bisect.simps) (simp add: mid_def Let_def)
      ultimately show ?thesis using m by simp
    next
      case False
      have "mid + 1 \<le> bisect a x (mid + 1) hi \<and> bisect a x (mid + 1) hi \<le> hi"
        using "1.IH"(2) [OF \<open>lo < hi\<close> mid_def False] m by simp
      moreover have "bisect a x lo hi = bisect a x (mid + 1) hi"
        using \<open>lo < hi\<close> False by (subst bisect.simps) (simp add: mid_def Let_def)
      ultimately show ?thesis using m by simp
    qed
  qed
qed

lemma length_accumulate [simp]: "length (accumulate acc ws) = length ws"
  by (induction ws arbitrary: acc) auto

lemma last_accumulate: "ws \<noteq> [] \<Longrightarrow> last (accumulate acc ws) = acc + sum_list ws"
proof (induction ws arbitrary: acc)
  case Nil
  then show ?case by simp
next
  case (Cons w ws)
  show ?case
  proof (cases "ws = []")
    case True
    then show ?thesis by simp
  next
    case False
    then have "accumulate (acc + w) ws \<noteq> []" by (cases ws) auto
    with Cons.IH [OF False, of "acc + w"] show ?thesis by simp
  qed
qed

lemma choices_in_population:
  assumes "population \<noteq> []" "length weights = length population" "0 < sum_list weights"
  shows "\<exists>p. choices u population weights = Inr p \<and> p \<in> set population"
proof -
  have w: "weights \<noteq> []" using assms(1,2) by auto
  have acc: "accumulate 0 weights \<noteq> []" using w by (cases weights) auto
  have total: "last (accumulate 0 weights) = sum_list weights"
    using last_accumulate [OF w, of 0] by simp
  define j where "j = bisect (accumulate 0 weights) (u * sum_list weights) 0 (length population - 1)"
  have "j \<le> length population - 1"
    unfolding j_def using bisect_bounds [of 0 "length population - 1"] by simp
  with assms(1) have "j < length population" by (cases population) auto
  then have "population ! j \<in> set population" by simp
  moreover have "choices u population weights = Inr (population ! j)"
    using assms(2,3) acc total by (simp add: choices_def Let_def j_def)
  ultimately show ?thesis by blast
qed

lemma choice_in_sequence: "sq \<noteq> [] \<Longrightarrow> \<exists>p. choice k sq = Inr p \<and> p \<in> set sq"
  by (simp add: choice_def)

section \<open>Lemmas on sample_pagerank\<close>

lemma zero_counts_closed:
  "distinct (keys corpus) \<Longrightarrow> zero_counts corpus = map (\<lambda>key. (key, 0)) (keys corpus)"
  unfolding zero_counts_def by (rule fold_setitem_empty)

lemma sum_values_setitem:
  fixes pr :: "('k, int) dict"
  shows "getitem pr k = Inr c \<Longrightarrow> sum_list (values_of (setitem pr k v)) = sum_list (values_of pr) - c + v"
  by (induction pr) (auto simp: values_of_def split: if_splits)

lemma transition_model_link_graph:
  assumes "link_graph corpus" "page \<in> set (keys corpus)"
  shows "\<exists>pd. transition_model corpus page d = Inr pd \<and> keys pd = keys corpus \<and>
     sum_list (values_of pd) = 1"
proof -
  obtain links where links: "getitem corpus page = Inr links"
    using getitem_present [OF assms(2)] by blast
  define pd where "pd = map (\<lambda>q. (q, if links = [] then 1 / real (length corpus)
                        else (1 - d) / real (length corpus)
                             + (if q \<in> set links then d / real (length links) else 0)))
            (keys corpus)"
  have tm: "transition_model corpus page d = Inr pd"
    unfolding pd_def by (rule transition_model_closed [OF assms(1) links])
  have k: "keys pd = keys corpus" unfolding pd_def by simp
  have "sum_list (values_of pd) = 1"
    by (rule transition_model_sum [OF assms(1) links tm])
  with tm k show ?thesis by blast
qed

lemma length_values_of [simp]: "length (values_of d) = length d"
  by (simp add: values_of_def)

lemma sample_step_valid:
  assumes "link_graph corpus" "keys page_rank = keys corpus" "sample_page \<in> set (keys corpus)"
  shows "\<exists>c next_page. getitem page_rank sample_page = Inr c \<and>
     sample_step corpus d u (page_rank, sample_page)
       = Inr (setitem page_rank sample_page (c + 1), next_page) \<and>
     next_page \<in> set (keys corpus)"
proof -
  have "sample_page \<in> set (keys page_rank)" using assms(2,3) by simp
  then obtain c where c: "getitem page_rank sample_page = Inr c"
    using getitem_Inr_iff [of page_rank sample_page] by blast
  obtain pd where pd: "transition_model corpus sample_page d = Inr pd"
    and k: "keys pd = keys corpus" and s: "sum_list (values_of pd) = 1"
    using transition_model_link_graph [OF assms(1,3), of d] by blast
  have ne: "keys pd \<noteq> []" using k assms(3) by auto
  have len: "length (values_of pd) = length (keys pd)" by simp
  have pos: "0 < sum_list (values_of pd)" using s by simp
  obtain p where p: "choices u (keys pd) (values_of pd) = Inr p" and pin: "p \<in> set (keys pd)"
    using choices_in_population [OF ne len pos, of u] by blast
  have "sample_step corpus d u (page_rank, sample_page)
       = Inr (setitem page_rank sample_page (c + 1), p)"
    unfolding sample_step_def using c pd p by simp
  with c pin k show ?thesis by auto
qed

lemma sample_loop_valid:
  assumes "link_graph corpus"
  shows "keys page_rank = keys corpus \<Longrightarrow> sample_page \<in> set (keys corpus) \<Longrightarrow>
     \<exists>counts page. sample_loop corpus d us i m (page_rank, sample_page) = Inr (counts, page) \<and>
        keys counts = keys corpus \<and> page \<in> set (keys corpus) \<and>
        sum_list (values_of counts) = sum_list (values_of page_rank) + int m"
proof (induction m arbitrary: i page_rank sample_page)
  case 0
  then show ?case by simp
next
  case (Suc m)
  obtain c next_page where c: "getitem page_rank sample_page = Inr c"
    and st: "sample_step corpus d (us i) (page_rank, sample_page)
       = Inr (setitem page_rank sample_page (c + 1), next_page)"
    and nx: "next_page \<in> set (keys corpus)"
    using sample_step_valid [OF assms Suc.prems, of d "us i"] by blast
  have "sample_page \<in> set (keys page_rank)" using Suc.prems by simp
  then have k: "keys (setitem page_rank sample_page (c + 1)) = keys corpus"
    using keys_setitem_present [of sample_page page_rank "c + 1"] Suc.prems(1) by simp
  obtain counts page where
    l: "sample_loop corpus d us (Suc i) m (setitem page_rank sample_page (c + 1), next_page)
          = Inr (counts, page)"
    and kc: "keys counts = keys corpus" and pg: "page \<in> set (keys corpus)"
    and sm: "sum_list (values_of counts)
          = sum_list (values_of (setitem page_rank sample_page (c + 1))) + int m"
    using Suc.IH [OF k nx, of "Suc i"] by blast
  have "sample_loop corpus d us i (Suc m) (page_rank, sample_page) = Inr (counts, page)"
    using st l by simp
  moreover have "sum_list (values_of counts) = sum_list (values_of page_rank) + int (Suc m)"
    using sm sum_values_setitem [OF c, of "c + 1"] by simp
  ultimately show ?case using kc pg by blast
qed



lemma keys_map_case [simp]: "keys (map (\<lambda>(key, c). (key, f key c)) d) = keys d"
  by (induction d) (auto simp: keys_def)

lemma normalize_closed:
  assumes "distinct (keys page_rank)" "n \<noteq> 0"
  shows "normalize page_rank n
     = Inr (map (\<lambda>(key, c). (key, real_of_int c / real_of_int n)) page_rank)"
proof -
  have gen: "distinct (keys (pre @ todo)) \<Longrightarrow> set (keys (pre @ todo)) \<subseteq> set (keys page_rank) \<Longrightarrow>
     (\<forall>(k, c) \<in> set todo. getitem page_rank k = Inr c) \<Longrightarrow>
     for_each (\<lambda>key ranks. bind_err (getitem page_rank key) (\<lambda>c.
          if n = 0 then Inl ZeroDivisionError
          else Inr (setitem ranks key (real_of_int c / real_of_int n))))
       (keys todo) (map (\<lambda>(key, c). (key, real_of_int c / real_of_int n)) pre)
     = Inr (map (\<lambda>(key, c). (key, real_of_int c / real_of_int n)) (pre @ todo))"
    for pre todo
  proof (induction todo arbitrary: pre)
    case Nil
    then show ?case by simp
  next
    case (Cons kc todo)
    obtain k c where kc: "kc = (k, c)" by (cases kc)
    have g: "getitem page_rank k = Inr c" using Cons.prems(3) kc by simp
    have fresh: "k \<notin> set (keys (map (\<lambda>(key, c). (key, real_of_int c / real_of_int n)) pre))"
      using Cons.prems(1) kc by simp
    have "distinct (keys ((pre @ [kc]) @ todo))"
      "set (keys ((pre @ [kc]) @ todo)) \<subseteq> set (keys page_rank)"
      "\<forall>(k, c) \<in> set todo. getitem page_rank k = Inr c"
      using Cons.prems by simp_all
    from Cons.IH [OF this] g assms(2) show ?case
      by (simp add: kc setitem_fresh [OF fresh])
  qed
  have self: "\<forall>(k, c) \<in> set page_rank. getitem page_rank k = Inr c"
    using assms(1)
  proof (induction page_rank)
    case Nil
    then show ?case by simp
  next
    case (Cons a page_rank)
    then show ?case by (cases a) (auto simp: keys_def rev_image_eqI)
  qed
  from gen [of "[]" page_rank] assms(1) self show ?thesis
    by (simp add: normalize_def)
qed

lemma sum_values_normalized:
  "sum_list (values_of (map (\<lambda>(key, c). (key, real_of_int c / real_of_int n)) counts))
     = real_of_int (sum_list (values_of counts)) / real_of_int n"
  by (induction counts) (auto simp: values_of_def add_divide_distrib)

lemma sample_pagerank_closed:
  assumes "link_graph corpus" "corpus \<noteq> []" "1 \<le> n"
  shows "\<exists>start counts page.
     choice (start_index rs) (keys corpus) = Inr start \<and> start \<in> set (keys corpus) \<and>
     sample_loop corpus d (uniform rs) 0 (nat (n - 1)) (zero_counts corpus, start)
       = Inr (counts, page) \<and>
     keys counts = keys corpus \<and> sum_list (values_of counts) = n - 1 \<and>
     sample_pagerank corpus d n rs
       = Inr (map (\<lambda>(key, c). (key, real_of_int c / real_of_int n)) counts)"
proof -
  have dk: "distinct (keys corpus)" using assms(1) by (simp add: link_graph_def)
  have z: "zero_counts corpus = map (\<lambda>key. (key, 0)) (keys corpus)"
    using dk by (rule zero_counts_closed)
  have zk: "keys (zero_counts corpus) = keys corpus" unfolding z by simp
  have zs: "sum_list (values_of (zero_counts corpus)) = 0" unfolding z by simp
  have "keys corpus \<noteq> []" using assms(2) by (simp add: keys_def)
  then obtain start where st: "choice (start_index rs) (keys corpus) = Inr start"
    and sin: "start \<in> set (keys corpus)"
    using choice_in_sequence [of "keys corpus" "start_index rs"] by blast
  obtain counts page where
    l: "sample_loop corpus d (uniform rs) 0 (nat (n - 1)) (zero_counts corpus, start)
          = Inr (counts, page)"
    and kc: "keys counts = keys corpus"
    and sm: "sum_list (values_of counts) = sum_list (values_of (zero_counts corpus)) + int (nat (n - 1))"
    using sample_loop_valid [OF assms(1) zk sin, of d "uniform rs" 0 "nat (n - 1)"] by blast
  have total: "sum_list (values_of counts) = n - 1" using sm zs assms(3) by simp
  have "distinct (keys counts)" using kc dk by simp
  then have nm: "normalize counts n
     = Inr (map (\<lambda>(key, c). (key, real_of_int c / real_of_int n)) counts)"
    using assms(3) by (intro normalize_closed) auto
  have "sample_pagerank corpus d n rs
       = Inr (map (\<lambda>(key, c). (key, real_of_int c / real_of_int n)) counts)"
    unfolding sample_pagerank_def using st l nm by simp
  with st sin l kc total show ?thesis by blast
qed



text \<open>
  Claim C10.  For a corpus with at least one page and \<open>n = 1\<close>, whatever the random source
  draws: \<^verbatim>\<open>range(1, 1)\<close> is empty, so the loop makes no pass and leaves its state as it
  is, and \<^verbatim>\<open>sample_pagerank\<close> returns the dict that gives every page 0; its values sum
  to 0.
\<close>

theorem sample_pagerank_one_sample:
  assumes "distinct (keys corpus)" "corpus \<noteq> []"
  shows "sample_loop corpus d (uniform rs) 0 (nat (1 - 1)) st = Inr st \<and>
     (\<exists>ranks. sample_pagerank corpus d 1 rs = Inr ranks \<and>
        ranks = map (\<lambda>key. (key, 0)) (keys corpus) \<and> sum_list (values_of ranks) = 0)"
proof -
  have z: "zero_counts corpus = map (\<lambda>key. (key, 0)) (keys corpus)"
    using assms(1) by (rule zero_counts_closed)
  have "keys corpus \<noteq> []" using assms(2) by (simp add: keys_def)
  then obtain start where st: "choice (start_index rs) (keys corpus) = Inr start"
    using choice_in_sequence [of "keys corpus" "start_index rs"] by blast
  have "distinct (keys (zero_counts corpus))" unfolding z using assms(1) by simp
  then have "normalize (zero_counts corpus) 1
     = Inr (map (\<lambda>(key, c). (key, real_of_int c / real_of_int 1)) (zero_counts corpus))"
    by (intro normalize_closed) auto
  then have nm: "normalize (zero_counts corpus) 1 = Inr (map (\<lambda>key. (key, 0)) (keys corpus))"
    unfolding z by (simp add: comp_def)
  have "sample_pagerank corpus d 1 rs = Inr (map (\<lambda>key. (key, 0)) (keys corpus))"
    unfolding sample_pagerank_def using st nm by simp
  then show ?thesis by simp
qed

theorem sample_pagerank_one_sample_witness:
  "distinct (keys [(''a'', [''b'']), (''b'', [])]) \<and>
   sample_pagerank [(''a'', [''b'']), (''b'', [])] (85 / 100) 1 \<lparr>start_index = 1, uniform = \<lambda>i. 1 / 3\<rparr>
     = Inr [(''a'', 0), (''b'', 0)]"
proof -
  have d: "distinct (keys [(''a'', [''b'']), (''b'', [])])" by simp
  from sample_pagerank_one_sample [OF d, of "85 / 100" "\<lparr>start_index = 1, uniform = \<lambda>i. 1 / 3\<rparr>"] d
  show ?thesis by simp
qed

lemma sample_pagerank_single_page:
  assumes "1 \<le> n"
  shows "sample_pagerank [(p, [])] d n rs = Inr [(p, (real_of_int n - 1) / real_of_int n)]"
proof -
  have g: "link_graph [(p, [])]" by (simp add: link_graph_def closed_universe_def)
  obtain counts where k: "keys counts = keys [(p, [])]"
    and s: "sum_list (values_of counts) = n - 1"
    and r: "sample_pagerank [(p, [])] d n rs
       = Inr (map (\<lambda>(key, c). (key, real_of_int c / real_of_int n)) counts)"
    using sample_pagerank_closed [OF g _ assms, of rs d] by auto
  from k obtain c where c: "counts = [(p, c)]"
    by (cases counts) (auto simp: keys_def)
  with s have "c = n - 1" by (simp add: values_of_def)
  with c r show ?thesis by simp
qed

section \<open>Lemmas on loops over dicts\<close>

lemma for_each_no_error:
  "(\<And>x s. x \<in> set xs \<Longrightarrow> body x s = Inr (step x s)) \<Longrightarrow>
   for_each body xs s = Inr (fold step xs s)"
  by (induction xs arbitrary: s) auto

lemma getitem_append:
  "getitem (a @ b) k = (if k \<in> set (keys a) then getitem a k else getitem b k)"
  by (induction a) auto

lemma setitem_append_present:
  "k \<notin> set (keys pre) \<Longrightarrow> setitem (pre @ (k, v) # rest) k v' = pre @ (k, v') # rest"
  by (induction pre) auto

lemma fold_setitem_overwrite:
  "distinct (keys pre @ keys old) \<Longrightarrow>
   fold (\<lambda>k dist. setitem dist k (f k)) (keys old) (pre @ old) = pre @ map (\<lambda>k. (k, f k)) (keys old)"
proof (induction old arbitrary: pre)
  case Nil
  then show ?case by simp
next
  case (Cons kv old)
  obtain k v where kv: "kv = (k, v)" by (cases kv)
  have fresh: "k \<notin> set (keys pre)" using Cons.prems kv by auto
  have "distinct (keys (pre @ [(k, f k)]) @ keys old)" using Cons.prems kv by auto
  from Cons.IH [OF this] show ?case
    by (simp add: kv setitem_append_present [OF fresh])
qed

lemma fold_setitem_same_keys:
  assumes "distinct ks" "old = [] \<or> keys old = ks"
  shows "fold (\<lambda>k dist. setitem dist k (f k)) ks old = map (\<lambda>k. (k, f k)) ks"
proof (cases "old = []")
  case True
  then show ?thesis using fold_setitem_empty [OF assms(1)] by simp
next
  case False
  with assms(2) have k: "keys old = ks" by simp
  show ?thesis using fold_setitem_overwrite [of "[]" old f] assms(1) k by simp
qed

section \<open>Closed forms of the loops of a round\<close>

lemma getitem_self:
  "distinct (keys d) \<Longrightarrow> (k, v) \<in> set d \<Longrightarrow> getitem d k = Inr v"
  by (induction d) (auto simp: keys_def rev_image_eqI)

lemma link_sum_closed:
  assumes "distinct (keys corpus)"
  shows "link_sum corpus N (rank_dict corpus rank) P
     = Inr (sum_list (map (contribution N rank P) corpus))"
proof -
  let ?body = "\<lambda>page sum. bind_err (getitem corpus page) (\<lambda>links.
          bind_err
            (if P \<in> set links then
               bind_err (getitem (rank_dict corpus rank) page) (\<lambda>r. Inr (sum + r / real (length links)))
             else Inr sum)
            (\<lambda>sum.
               if links = [] then bind_err (getitem (rank_dict corpus rank) page) (\<lambda>r. Inr (sum + r / real N))
               else Inr sum))"
  have gen: "set todo \<subseteq> set corpus \<Longrightarrow>
     for_each ?body (keys todo) acc = Inr (acc + sum_list (map (contribution N rank P) todo))"
    for todo acc
  proof (induction todo arbitrary: acc)
    case Nil
    then show ?case by simp
  next
    case (Cons e todo)
    obtain page links where e: "e = (page, links)" by (cases e)
    have mem: "(page, links) \<in> set corpus" using Cons.prems e by simp
    have g: "getitem corpus page = Inr links" using getitem_self [OF assms mem] .
    have "page \<in> set (keys corpus)" using mem by (force simp: keys_def)
    then have r: "getitem (rank_dict corpus rank) page = Inr (rank page)"
      by (simp add: rank_dict_def getitem_map_pair)
    have "set todo \<subseteq> set corpus" using Cons.prems by simp
    note IH = Cons.IH [OF this]
    show ?case
      by (simp add: e g r IH contribution_def add.assoc)
  qed
  from gen [of corpus 0] show ?thesis by (simp add: link_sum_def)
qed

lemma keys_rank_dict [simp]: "keys (rank_dict corpus rank) = keys corpus"
  by (simp add: rank_dict_def)

lemma calculate_closed:
  assumes "distinct (keys corpus)" "calculated_pr = [] \<or> keys calculated_pr = keys corpus"
  shows "calculate corpus d (length corpus) ((1 - d) / real (length corpus))
           (rank_dict corpus rank) calculated_pr
     = Inr (rank_dict corpus (new_rank corpus d rank))"
proof -
  have "calculate corpus d (length corpus) ((1 - d) / real (length corpus))
           (rank_dict corpus rank) calculated_pr
     = Inr (fold (\<lambda>P c. setitem c P (new_rank corpus d rank P)) (keys corpus) calculated_pr)"
    unfolding calculate_def keys_rank_dict
    by (rule for_each_no_error) (simp add: link_sum_closed [OF assms(1)] new_rank_def)
  also have "fold (\<lambda>P c. setitem c P (new_rank corpus d rank P)) (keys corpus) calculated_pr
     = rank_dict corpus (new_rank corpus d rank)"
    unfolding rank_dict_def by (rule fold_setitem_same_keys [OF assms])
  finally show ?thesis .
qed

lemma store_closed:
  assumes "distinct (keys corpus)"
  shows "store (rank_dict corpus old) (rank_dict corpus new)
     = Inr (list_ex (\<lambda>P. \<bar>old P - new P\<bar> > 1 / 1000) (keys corpus), rank_dict corpus new)"
proof -
  let ?body = "\<lambda>current_page st. case st of (condition, page_rank) \<Rightarrow>
          bind_err (getitem page_rank current_page) (\<lambda>x.
          bind_err (getitem (rank_dict corpus new) current_page) (\<lambda>y.
            Inr (if \<bar>x - y\<bar> > 1 / 1000 then True else condition,
                 setitem page_rank current_page y)))"
  have gen: "distinct (done @ todo) \<Longrightarrow> set (done @ todo) \<subseteq> set (keys corpus) \<Longrightarrow>
     for_each ?body todo (c, map (\<lambda>P. (P, new P)) done @ map (\<lambda>P. (P, old P)) todo)
     = Inr (c \<or> list_ex (\<lambda>P. \<bar>old P - new P\<bar> > 1 / 1000) todo, map (\<lambda>P. (P, new P)) (done @ todo))"
    for "done" todo c
  proof (induction todo arbitrary: "done" c)
    case Nil
    then show ?case by simp
  next
    case (Cons P todo)
    have fresh: "P \<notin> set (keys (map (\<lambda>P. (P, new P)) done))" using Cons.prems(1) by simp
    have g1: "getitem (map (\<lambda>P. (P, new P)) done @ map (\<lambda>P. (P, old P)) (P # todo)) P = Inr (old P)"
      using fresh by (simp add: getitem_append)
    have g2: "getitem (rank_dict corpus new) P = Inr (new P)"
      using Cons.prems(2) by (simp add: rank_dict_def getitem_map_pair)
    have s: "setitem (map (\<lambda>P. (P, new P)) done @ map (\<lambda>P. (P, old P)) (P # todo)) P (new P)
        = map (\<lambda>P. (P, new P)) (done @ [P]) @ map (\<lambda>P. (P, old P)) todo"
      using setitem_append_present [OF fresh, of "old P" "map (\<lambda>P. (P, old P)) todo" "new P"] by simp
    have "distinct ((done @ [P]) @ todo)" "set ((done @ [P]) @ todo) \<subseteq> set (keys corpus)"
      using Cons.prems by simp_all
    note IH = Cons.IH [OF this]
    have "for_each ?body (P # todo) (c, map (\<lambda>P. (P, new P)) done @ map (\<lambda>P. (P, old P)) (P # todo))
      = for_each ?body todo (if \<bar>old P - new P\<bar> > 1 / 1000 then True else c,
           map (\<lambda>P. (P, new P)) (done @ [P]) @ map (\<lambda>P. (P, old P)) todo)"
      using g1 g2 s by simp
    also have "\<dots> = Inr ((if \<bar>old P - new P\<bar> > 1 / 1000 then True else c)
          \<or> list_ex (\<lambda>P. \<bar>old P - new P\<bar> > 1 / 1000) todo,
        map (\<lambda>P. (P, new P)) ((done @ [P]) @ todo))"
      by (rule IH)
    finally show ?case by auto
  qed
  from gen [of "[]" "keys corpus" False] assms show ?thesis
    by (simp add: store_def rank_dict_def)
qed

lemma pagerank_round_closed:
  assumes "distinct (keys corpus)" "calculated_pr = [] \<or> keys calculated_pr = keys corpus"
  shows "pagerank_round corpus d (length corpus) ((1 - d) / real (length corpus))
           (rank_dict corpus rank, calculated_pr)
     = Inr (moves corpus d rank, rank_dict corpus (new_rank corpus d rank),
            rank_dict corpus (new_rank corpus d rank))"
  unfolding pagerank_round_def
  by (simp add: calculate_closed [OF assms] store_closed [OF assms(1)] moves_def)

section \<open>The program's update is the recurrence\<close>

lemma sum_list_two_filters:
  fixes f g :: "'a \<Rightarrow> real"
  shows "sum_list (map (\<lambda>x. (if p x then f x else 0) + (if q x then g x else 0)) xs)
     = sum_list (map f (filter p xs)) + sum_list (map g (filter q xs))"
  by (induction xs) auto

lemma new_rank_recurrence:
  assumes "link_graph corpus"
  shows "new_rank corpus d rank P = recurrence corpus d rank P"
proof -
  have dk: "distinct (keys corpus)" using assms by (simp add: link_graph_def)
  have N: "card (set (keys corpus)) = length corpus" using dk by (simp add: distinct_card)
  have L: "card (set links) = length links" if "(Q, links) \<in> set corpus" for Q links
    using link_graph_links(1) [OF assms that] by (simp add: distinct_card)
  have c: "contribution (length corpus) rank P
      = (\<lambda>e. (if (case e of (Q, links) \<Rightarrow> P \<in> set links)
                then (case e of (Q, links) \<Rightarrow> rank Q / real (length links)) else 0)
             + (if (case e of (Q, links) \<Rightarrow> set links = {})
                then (case e of (Q, links) \<Rightarrow> rank Q / real (length corpus)) else 0))"
    by (rule ext) (auto simp: contribution_def split: prod.splits)
  have a: "map (\<lambda>(Q, links). rank Q / real (length links)) (filter (\<lambda>(Q, links). P \<in> set links) corpus)
      = map (\<lambda>(Q, links). rank Q / real (card (set links))) (filter (\<lambda>(Q, links). P \<in> set links) corpus)"
    by (rule map_cong [OF refl]) (auto simp: L)
  show ?thesis
    unfolding new_rank_def recurrence_def N c sum_list_two_filters a
    by (simp add: distrib_left add.assoc)
qed

lemma initial_ranks_closed:
  "distinct (keys corpus) \<Longrightarrow>
   initial_ranks corpus = rank_dict corpus (\<lambda>P. 1 / real (length corpus))"
  unfolding initial_ranks_def rank_dict_def by (rule fold_setitem_empty)

lemma rounds_closed:
  assumes "distinct (keys corpus)"
  shows "\<exists>calc. (calc = [] \<or> keys calc = keys corpus) \<and>
     rounds corpus d k
       = Inr (k = 0 \<or> moves corpus d ((new_rank corpus d ^^ (k - 1)) (\<lambda>P. 1 / real (length corpus))),
              rank_dict corpus ((new_rank corpus d ^^ k) (\<lambda>P. 1 / real (length corpus))), calc)"
proof (induction k)
  case 0
  show ?case by (simp add: initial_ranks_closed [OF assms])
next
  case (Suc k)
  then obtain calc c where v: "calc = [] \<or> keys calc = keys corpus"
    and r: "rounds corpus d k
       = Inr (c, rank_dict corpus ((new_rank corpus d ^^ k) (\<lambda>P. 1 / real (length corpus))), calc)"
    by blast
  have "rounds corpus d (Suc k)
     = Inr (moves corpus d ((new_rank corpus d ^^ k) (\<lambda>P. 1 / real (length corpus))),
            rank_dict corpus ((new_rank corpus d ^^ Suc k) (\<lambda>P. 1 / real (length corpus))),
            rank_dict corpus ((new_rank corpus d ^^ Suc k) (\<lambda>P. 1 / real (length corpus))))"
    using r pagerank_round_closed [OF assms v] by simp
  then show ?case by simp
qed

section \<open>The while loop\<close>

lemma iterate_loop_first_still:
  assumes "distinct (keys corpus)"
  shows "calc = [] \<or> keys calc = keys corpus \<Longrightarrow>
     \<forall>j < k. moves corpus d ((new_rank corpus d ^^ j) rank) \<Longrightarrow>
     \<not> moves corpus d ((new_rank corpus d ^^ k) rank) \<Longrightarrow>
     iterate_loop corpus d (length corpus) ((1 - d) / real (length corpus))
       (rank_dict corpus rank, calc)
     = Some (Inr (rank_dict corpus ((new_rank corpus d ^^ Suc k) rank)))"
proof (induction k arbitrary: rank calc)
  case 0
  then show ?case
    by (subst iterate_loop.simps) (simp add: pagerank_round_closed [OF assms])
next
  case (Suc k)
  let ?r = "new_rank corpus d rank"
  have m: "moves corpus d rank" using Suc.prems(2) by force
  have "\<forall>j < k. moves corpus d ((new_rank corpus d ^^ j) ?r)"
  proof (intro allI impI)
    fix j assume "j < k"
    then have "moves corpus d ((new_rank corpus d ^^ Suc j) rank)"
      using Suc.prems(2) by (meson Suc_mono)
    then show "moves corpus d ((new_rank corpus d ^^ j) ?r)"
      by (simp add: funpow_swap1)
  qed
  moreover have "\<not> moves corpus d ((new_rank corpus d ^^ k) ?r)"
    using Suc.prems(3) by (simp add: funpow_swap1)
  ultimately have "iterate_loop corpus d (length corpus) ((1 - d) / real (length corpus))
       (rank_dict corpus ?r, rank_dict corpus ?r)
     = Some (Inr (rank_dict corpus ((new_rank corpus d ^^ Suc k) ?r)))"
    by (intro Suc.IH) simp_all
  moreover have "iterate_loop corpus d (length corpus) ((1 - d) / real (length corpus))
       (rank_dict corpus rank, calc)
     = iterate_loop corpus d (length corpus) ((1 - d) / real (length corpus))
       (rank_dict corpus ?r, rank_dict corpus ?r)"
    by (subst iterate_loop.simps) (simp add: pagerank_round_closed [OF assms Suc.prems(1)] m)
  ultimately show ?case by (simp add: funpow_swap1)
qed

section \<open>The update contracts the sum of the absolute differences\<close>

lemma sum_list_swap:
  fixes f :: "'a \<Rightarrow> 'b \<Rightarrow> real"
  shows "sum_list (map (\<lambda>x. sum_list (map (f x) ys)) xs)
     = sum_list (map (\<lambda>y. sum_list (map (\<lambda>x. f x y) xs)) ys)"
  by (induction xs) (simp_all add: sum_list_addf)

lemma contribution_linear:
  "contribution N rank P e = contribution N (\<lambda>Q. 1) P e * rank (fst e)"
  by (cases e) (simp add: contribution_def distrib_right)

lemma contribution_nonneg: "0 \<le> contribution N (\<lambda>Q. 1) P e"
  by (cases e) (simp add: contribution_def)

lemma new_rank_diff:
  "new_rank corpus d r P - new_rank corpus d r' P
     = d * sum_list (map (\<lambda>e. contribution (length corpus) (\<lambda>Q. 1) P e * (r (fst e) - r' (fst e))) corpus)"
proof -
  have "sum_list (map (contribution (length corpus) r P) corpus)
        - sum_list (map (contribution (length corpus) r' P) corpus)
     = sum_list (map (\<lambda>e. contribution (length corpus) (\<lambda>Q. 1) P e * (r (fst e) - r' (fst e))) corpus)"
    unfolding contribution_linear [of _ r] contribution_linear [of _ r']
    by (simp add: sum_list_subtractf right_diff_distrib)
  then show ?thesis
    by (simp add: new_rank_def right_diff_distrib [symmetric])
qed

lemma column_sum_le_1:
  assumes "distinct ks" "length ks = N"
  shows "sum_list (map (\<lambda>P. contribution N (\<lambda>Q. 1) P e) ks) \<le> 1"
proof -
  obtain Q links where e: "e = (Q, links)" by (cases e)
  show ?thesis
  proof (cases "links = []")
    case True
    then have "sum_list (map (\<lambda>P. contribution N (\<lambda>Q. 1) P e) ks) = real N * (1 / real N)"
      using assms(2) by (simp add: e contribution_def sum_list_triv)
    then show ?thesis by simp
  next
    case False
    then have "sum_list (map (\<lambda>P. contribution N (\<lambda>Q. 1) P e) ks)
        = sum_list (map (\<lambda>P. if P \<in> set links then 1 / real (length links) else 0) ks)"
      by (simp add: e contribution_def)
    also have "\<dots> = sum (\<lambda>P. if P \<in> set links then 1 / real (length links) else 0) (set ks)"
      using assms(1) by (simp add: sum_list_distinct_conv_sum_set)
    also have "\<dots> = sum (\<lambda>P. 1 / real (length links)) (set ks \<inter> set links)"
      by (rule sum.inter_restrict [symmetric]) simp
    also have "\<dots> = real (card (set ks \<inter> set links)) / real (length links)"
      by simp
    also have "\<dots> \<le> real (length links) / real (length links)"
    proof (rule divide_right_mono)
      have "card (set ks \<inter> set links) \<le> card (set links)"
        by (rule card_mono) auto
      also have "\<dots> \<le> length links" by (rule card_length)
      finally show "real (card (set ks \<inter> set links)) \<le> real (length links)" by simp
    qed simp
    also have "\<dots> = 1" using False by simp
    finally show ?thesis .
  qed
qed

lemma new_rank_contracts:
  assumes "distinct (keys corpus)" "0 \<le> d"
  shows "sum_list (map (\<lambda>P. \<bar>new_rank corpus d r P - new_rank corpus d r' P\<bar>) (keys corpus))
     \<le> d * sum_list (map (\<lambda>Q. \<bar>r Q - r' Q\<bar>) (keys corpus))"
proof -
  let ?N = "length corpus"
  let ?w = "\<lambda>P e. contribution ?N (\<lambda>Q. 1) P e"
  let ?a = "\<lambda>e. \<bar>r (fst e) - r' (fst e)\<bar>"
  have point: "\<bar>new_rank corpus d r P - new_rank corpus d r' P\<bar>
      \<le> d * sum_list (map (\<lambda>e. ?w P e * ?a e) corpus)" for P
  proof -
    have "\<bar>sum_list (map (\<lambda>e. ?w P e * (r (fst e) - r' (fst e))) corpus)\<bar>
        \<le> sum_list (map abs (map (\<lambda>e. ?w P e * (r (fst e) - r' (fst e))) corpus))"
      by (rule sum_list_abs)
    also have "\<dots> = sum_list (map (\<lambda>e. ?w P e * ?a e) corpus)"
      by (simp add: comp_def abs_mult contribution_nonneg)
    finally have "\<bar>sum_list (map (\<lambda>e. ?w P e * (r (fst e) - r' (fst e))) corpus)\<bar>
        \<le> sum_list (map (\<lambda>e. ?w P e * ?a e) corpus)" .
    then show ?thesis
      unfolding new_rank_diff abs_mult using assms(2) by (simp add: mult_left_mono)
  qed
  have "sum_list (map (\<lambda>P. \<bar>new_rank corpus d r P - new_rank corpus d r' P\<bar>) (keys corpus))
      \<le> sum_list (map (\<lambda>P. d * sum_list (map (\<lambda>e. ?w P e * ?a e) corpus)) (keys corpus))"
    by (rule sum_list_mono) (rule point)
  also have "\<dots> = d * sum_list (map (\<lambda>P. sum_list (map (\<lambda>e. ?w P e * ?a e) corpus)) (keys corpus))"
    by (simp add: sum_list_const_mult)
  also have "sum_list (map (\<lambda>P. sum_list (map (\<lambda>e. ?w P e * ?a e) corpus)) (keys corpus))
      = sum_list (map (\<lambda>e. sum_list (map (\<lambda>P. ?w P e * ?a e) (keys corpus))) corpus)"
    by (rule sum_list_swap)
  also have "\<dots> = sum_list (map (\<lambda>e. sum_list (map (\<lambda>P. ?w P e) (keys corpus)) * ?a e) corpus)"
    by (simp add: sum_list_mult_const)
  also have "\<dots> \<le> sum_list (map ?a corpus)"
  proof (rule sum_list_mono)
    fix e
    have "sum_list (map (\<lambda>P. ?w P e) (keys corpus)) * ?a e \<le> 1 * ?a e"
      by (rule mult_right_mono) (simp_all add: column_sum_le_1 [OF assms(1)])
    then show "sum_list (map (\<lambda>P. ?w P e) (keys corpus)) * ?a e \<le> ?a e" by simp
  qed
  also have "sum_list (map ?a corpus) = sum_list (map (\<lambda>Q. \<bar>r Q - r' Q\<bar>) (keys corpus))"
    by (simp add: keys_def comp_def)
  finally show ?thesis using assms(2) by (simp add: mult_left_mono)
qed

section \<open>The loop ends\<close>

lemma elem_le_sum_list_abs:
  fixes f :: "'a \<Rightarrow> real"
  shows "x \<in> set xs \<Longrightarrow> \<bar>f x\<bar> \<le> sum_list (map (\<lambda>x. \<bar>f x\<bar>) xs)"
proof (induction xs)
  case Nil
  then show ?case by simp
next
  case (Cons a xs)
  have "0 \<le> sum_list (map (\<lambda>x. \<bar>f x\<bar>) xs)" by (rule sum_list_nonneg) auto
  with Cons show ?case by auto
qed

lemma successive_differences:
  assumes "distinct (keys corpus)" "0 \<le> d"
  shows "sum_list (map (\<lambda>P. \<bar>(new_rank corpus d ^^ Suc k) r P - (new_rank corpus d ^^ k) r P\<bar>) (keys corpus))
     \<le> d ^ k * sum_list (map (\<lambda>P. \<bar>new_rank corpus d r P - r P\<bar>) (keys corpus))"
proof (induction k)
  case 0
  show ?case by simp
next
  case (Suc k)
  let ?U = "new_rank corpus d"
  have "sum_list (map (\<lambda>P. \<bar>(?U ^^ Suc (Suc k)) r P - (?U ^^ Suc k) r P\<bar>) (keys corpus))
      = sum_list (map (\<lambda>P. \<bar>?U ((?U ^^ Suc k) r) P - ?U ((?U ^^ k) r) P\<bar>) (keys corpus))"
    by simp
  also have "\<dots> \<le> d * sum_list (map (\<lambda>P. \<bar>(?U ^^ Suc k) r P - (?U ^^ k) r P\<bar>) (keys corpus))"
    by (rule new_rank_contracts [OF assms])
  also have "\<dots> \<le> d * (d ^ k * sum_list (map (\<lambda>P. \<bar>?U r P - r P\<bar>) (keys corpus)))"
    using Suc.IH assms(2) by (rule mult_left_mono)
  finally show ?case by (simp add: mult.assoc)
qed

lemma moves_imp_large:
  assumes "moves corpus d r"
  shows "1 / 1000 < sum_list (map (\<lambda>P. \<bar>new_rank corpus d r P - r P\<bar>) (keys corpus))"
proof -
  from assms obtain P where P: "P \<in> set (keys corpus)" and big: "\<bar>r P - new_rank corpus d r P\<bar> > 1 / 1000"
    by (auto simp: moves_def list_ex_iff)
  have "\<bar>new_rank corpus d r P - r P\<bar>
      \<le> sum_list (map (\<lambda>P. \<bar>new_rank corpus d r P - r P\<bar>) (keys corpus))"
    using elem_le_sum_list_abs [OF P, of "\<lambda>P. new_rank corpus d r P - r P"] .
  with big show ?thesis by (simp add: abs_minus_commute)
qed

lemma eventually_still:
  assumes "distinct (keys corpus)" "0 \<le> d" "d < 1"
  shows "\<exists>k. \<not> moves corpus d ((new_rank corpus d ^^ k) r)"
proof -
  let ?U = "new_rank corpus d"
  define M where "M = sum_list (map (\<lambda>P. \<bar>?U r P - r P\<bar>) (keys corpus))"
  have M0: "0 \<le> M" unfolding M_def by (rule sum_list_nonneg) auto
  then have "0 < (1 / 1000) / (M + 1)" by simp
  from real_arch_pow_inv [OF this assms(3)]
  obtain k where k: "d ^ k < (1 / 1000) / (M + 1)" by blast
  have "d ^ k * M \<le> d ^ k * (M + 1)" using assms(2) by (simp add: mult_left_mono)
  also have "\<dots> < 1 / 1000"
  proof -
    have "0 < M + 1" using M0 by simp
    then have "d ^ k * (M + 1) < (1 / 1000) / (M + 1) * (M + 1)"
      using k by (rule mult_strict_right_mono [rotated])
    also have "\<dots> = 1 / 1000" using \<open>0 < M + 1\<close> by simp
    finally show ?thesis .
  qed
  finally have small: "d ^ k * M < 1 / 1000" .
  have "\<not> moves corpus d ((?U ^^ k) r)"
  proof
    assume "moves corpus d ((?U ^^ k) r)"
    from moves_imp_large [OF this]
    have "1 / 1000 < sum_list (map (\<lambda>P. \<bar>(?U ^^ Suc k) r P - (?U ^^ k) r P\<bar>) (keys corpus))"
      by simp
    also have "\<dots> \<le> d ^ k * M"
      unfolding M_def by (rule successive_differences [OF assms(1,2)])
    finally show False using small by simp
  qed
  then show ?thesis ..
qed

lemma first_still:
  assumes "distinct (keys corpus)" "0 \<le> d" "d < 1"
  shows "\<exists>k. \<not> moves corpus d ((new_rank corpus d ^^ k) r) \<and>
     (\<forall>j < k. moves corpus d ((new_rank corpus d ^^ j) r))"
proof -
  from eventually_still [OF assms, of r]
  have "\<exists>k. \<not> moves corpus d ((new_rank corpus d ^^ k) r)" .
  then show ?thesis
    using exists_least_iff [of "\<lambda>k. \<not> moves corpus d ((new_rank corpus d ^^ k) r)"] by blast
qed

lemma iterate_pagerank_closed:
  assumes "distinct (keys corpus)" "corpus \<noteq> []" "0 \<le> d" "d < 1"
  shows "\<exists>k. \<not> moves corpus d ((new_rank corpus d ^^ k) (\<lambda>P. 1 / real (length corpus))) \<and>
     (\<forall>j < k. moves corpus d ((new_rank corpus d ^^ j) (\<lambda>P. 1 / real (length corpus)))) \<and>
     iterate_pagerank corpus d
       = Some (Inr (rank_dict corpus ((new_rank corpus d ^^ Suc k) (\<lambda>P. 1 / real (length corpus)))))"
proof -
  let ?r0 = "\<lambda>P. 1 / real (length corpus)"
  obtain k where k: "\<not> moves corpus d ((new_rank corpus d ^^ k) ?r0)"
      "\<forall>j < k. moves corpus d ((new_rank corpus d ^^ j) ?r0)"
    using first_still [OF assms(1,3,4), of ?r0] by blast
  have "iterate_loop corpus d (length corpus) ((1 - d) / real (length corpus))
       (rank_dict corpus ?r0, [])
     = Some (Inr (rank_dict corpus ((new_rank corpus d ^^ Suc k) ?r0)))"
    using k by (intro iterate_loop_first_still [OF assms(1)]) simp_all
  then have "iterate_pagerank corpus d
       = Some (Inr (rank_dict corpus ((new_rank corpus d ^^ Suc k) ?r0)))"
    using assms(2) by (simp add: iterate_pagerank_def initial_ranks_closed [OF assms(1)])
  with k show ?thesis by blast
qed

section \<open>Properties of iterate_pagerank\<close>

text \<open>
  Claim C8, as stated, fails.  Seven pages: \<open>a\<close>, \<open>b\<close>, \<open>c\<close> link to \<open>d\<close>; \<open>d\<close> links to \<open>e\<close>,
  \<open>f\<close>, \<open>g\<close>; \<open>e\<close> links to \<open>a\<close>, \<open>f\<close> to \<open>b\<close>, \<open>g\<close> to \<open>c\<close>; the damping factor is 2/5.  The
  fifth round moves no rank by more than 0.001, so \<^verbatim>\<open>iterate_pagerank\<close> returns its ranks.
  One more round on the returned state sets \<^verbatim>\<open>condition\<close> again: it moves the rank of \<open>d\<close>
  from 1077/4375 to 26797/109375, by 128/109375, more than 0.001.
\<close>

theorem extra_round_counterexample:
  "iterate_pagerank [(''a'', [''d'']), (''b'', [''d'']), (''c'', [''d'']), (''d'', [''e'', ''f'', ''g'']), (''e'', [''a'']), (''f'', [''b'']), (''g'', [''c''])] (2 / 5) = Some (Inr [(''a'', 8711 / 65625), (''b'', 8711 / 65625), (''c'', 8711 / 65625), (''d'', 1077 / 4375), (''e'', 2593 / 21875), (''f'', 2593 / 21875), (''g'', 2593 / 21875)]) \<and>
   pagerank_round [(''a'', [''d'']), (''b'', [''d'']), (''c'', [''d'']), (''d'', [''e'', ''f'', ''g'']), (''e'', [''a'']), (''f'', [''b'']), (''g'', [''c''])] (2 / 5) 7 ((1 - 2 / 5) / 7) ([(''a'', 8711 / 65625), (''b'', 8711 / 65625), (''c'', 8711 / 65625), (''d'', 1077 / 4375), (''e'', 2593 / 21875), (''f'', 2593 / 21875), (''g'', 2593 / 21875)], [(''a'', 8711 / 65625), (''b'', 8711 / 65625), (''c'', 8711 / 65625), (''d'', 1077 / 4375), (''e'', 2593 / 21875), (''f'', 2593 / 21875), (''g'', 2593 / 21875)]) = Inr (True, [(''a'', 14561 / 109375), (''b'', 14561 / 109375), (''c'', 14561 / 109375), (''d'', 26797 / 109375), (''e'', 2593 / 21875), (''f'', 2593 / 21875), (''g'', 2593 / 21875)], [(''a'', 14561 / 109375), (''b'', 14561 / 109375), (''c'', 14561 / 109375), (''d'', 26797 / 109375), (''e'', 2593 / 21875), (''f'', 2593 / 21875), (''g'', 2593 / 21875)]) \<and>
   getitem [(''a'', 8711 / 65625), (''b'', 8711 / 65625), (''c'', 8711 / 65625), (''d'', 1077 / 4375), (''e'', 2593 / 21875), (''f'', 2593 / 21875), (''g'', 2593 / 21875)] ''d'' = Inr (1077 / 4375) \<and>
   getitem [(''a'', 14561 / 109375), (''b'', 14561 / 109375), (''c'', 14561 / 109375), (''d'', 26797 / 109375), (''e'', 2593 / 21875), (''f'', 2593 / 21875), (''g'', 2593 / 21875)] ''d'' = Inr (26797 / 109375) \<and>
   \<bar>1077 / 4375 - 26797 / 109375\<bar> > (1 / 1000 :: real)"
proof -
  let ?G = "[(''a'', [''d'']), (''b'', [''d'']), (''c'', [''d'']), (''d'', [''e'', ''f'', ''g'']), (''e'', [''a'']), (''f'', [''b'']), (''g'', [''c''])]"
  let ?R0 = "[(''a'', 1 / 7), (''b'', 1 / 7), (''c'', 1 / 7), (''d'', 1 / 7), (''e'', 1 / 7), (''f'', 1 / 7), (''g'', 1 / 7)]"
  let ?R1 = "[(''a'', 1 / 7), (''b'', 1 / 7), (''c'', 1 / 7), (''d'', 9 / 35), (''e'', 11 / 105), (''f'', 11 / 105), (''g'', 11 / 105)]"
  let ?R2 = "[(''a'', 67 / 525), (''b'', 67 / 525), (''c'', 67 / 525), (''d'', 9 / 35), (''e'', 3 / 25), (''f'', 3 / 25), (''g'', 3 / 25)]"
  let ?R3 = "[(''a'', 117 / 875), (''b'', 117 / 875), (''c'', 117 / 875), (''d'', 209 / 875), (''e'', 3 / 25), (''f'', 3 / 25), (''g'', 3 / 25)]"
  let ?R4 = "[(''a'', 117 / 875), (''b'', 117 / 875), (''c'', 117 / 875), (''d'', 1077 / 4375), (''e'', 1543 / 13125), (''f'', 1543 / 13125), (''g'', 1543 / 13125)]"
  let ?R5 = "[(''a'', 8711 / 65625), (''b'', 8711 / 65625), (''c'', 8711 / 65625), (''d'', 1077 / 4375), (''e'', 2593 / 21875), (''f'', 2593 / 21875), (''g'', 2593 / 21875)]"
  let ?R6 = "[(''a'', 14561 / 109375), (''b'', 14561 / 109375), (''c'', 14561 / 109375), (''d'', 26797 / 109375), (''e'', 2593 / 21875), (''f'', 2593 / 21875), (''g'', 2593 / 21875)]"
  have r1: "pagerank_round ?G (2 / 5) 7 (3 / 35) (?R0, []) = Inr (True, ?R1, ?R1)"
    by (simp add: pagerank_round_def calculate_def link_sum_def store_def)
  have r2: "pagerank_round ?G (2 / 5) 7 (3 / 35) (?R1, ?R1) = Inr (True, ?R2, ?R2)"
    by (simp add: pagerank_round_def calculate_def link_sum_def store_def)
  have r3: "pagerank_round ?G (2 / 5) 7 (3 / 35) (?R2, ?R2) = Inr (True, ?R3, ?R3)"
    by (simp add: pagerank_round_def calculate_def link_sum_def store_def)
  have r4: "pagerank_round ?G (2 / 5) 7 (3 / 35) (?R3, ?R3) = Inr (True, ?R4, ?R4)"
    by (simp add: pagerank_round_def calculate_def link_sum_def store_def)
  have r5: "pagerank_round ?G (2 / 5) 7 (3 / 35) (?R4, ?R4) = Inr (False, ?R5, ?R5)"
    by (simp add: pagerank_round_def calculate_def link_sum_def store_def)
  have r6: "pagerank_round ?G (2 / 5) 7 (3 / 35) (?R5, ?R5) = Inr (True, ?R6, ?R6)"
    by (simp add: pagerank_round_def calculate_def link_sum_def store_def)
  have l5: "iterate_loop ?G (2 / 5) 7 (3 / 35) (?R4, ?R4) = Some (Inr ?R5)"
    by (subst iterate_loop.simps) (simp only: r5 sum.case prod.case if_False fst_conv)
  have l4: "iterate_loop ?G (2 / 5) 7 (3 / 35) (?R3, ?R3) = Some (Inr ?R5)"
    by (subst iterate_loop.simps) (simp only: r4 l5 sum.case prod.case if_True)
  have l3: "iterate_loop ?G (2 / 5) 7 (3 / 35) (?R2, ?R2) = Some (Inr ?R5)"
    by (subst iterate_loop.simps) (simp only: r3 l4 sum.case prod.case if_True)
  have l2: "iterate_loop ?G (2 / 5) 7 (3 / 35) (?R1, ?R1) = Some (Inr ?R5)"
    by (subst iterate_loop.simps) (simp only: r2 l3 sum.case prod.case if_True)
  have l1: "iterate_loop ?G (2 / 5) 7 (3 / 35) (?R0, []) = Some (Inr ?R5)"
    by (subst iterate_loop.simps) (simp only: r1 l2 sum.case prod.case if_True)
  have init: "initial_ranks ?G = ?R0" by (simp add: initial_ranks_def)
  have len: "length ?G = 7" by simp
  have "iterate_pagerank ?G (2 / 5) = iterate_loop ?G (2 / 5) 7 (3 / 35) (?R0, [])"
    unfolding iterate_pagerank_def init Let_def len by simp
  with l1 have res: "iterate_pagerank ?G (2 / 5) = Some (Inr ?R5)" by simp
  have rc: "(1 - 2 / 5) / 7 = (3 / 35 :: real)" by simp
  show ?thesis unfolding rc using res r6 by simp
qed

text \<open>
  Claim C2.  For a link graph, a round started with the ranks \<open>rank\<close> in \<^verbatim>\<open>page_rank\<close> leaves in
  \<^verbatim>\<open>page_rank\<close> (and in \<^verbatim>\<open>calculated_pr\<close>) the recurrence of the specification applied to
  \<open>rank\<close>, for every page: \<open>(1 - d) / N\<close>, plus \<open>d\<close> times the sum of \<open>rank Q / outDegree Q\<close>
  over the pages linking to the page, plus \<open>d\<close> times the sum of \<open>rank Q / N\<close> over the pages
  without links.  The new ranks depend on \<open>rank\<close> only: whatever \<^verbatim>\<open>calculated_pr\<close> held
  before the round (nothing, or values of the round before) is not read.  Every round of
  \<^verbatim>\<open>iterate_pagerank\<close> is of this kind.
\<close>

theorem pagerank_round_recurrence:
  assumes "link_graph corpus" "calculated_pr = [] \<or> keys calculated_pr = keys corpus"
  shows "pagerank_round corpus d (length corpus) ((1 - d) / real (length corpus))
           (rank_dict corpus rank, calculated_pr)
       = Inr (list_ex (\<lambda>P. \<bar>rank P - recurrence corpus d rank P\<bar> > 1 / 1000) (keys corpus),
              rank_dict corpus (recurrence corpus d rank),
              rank_dict corpus (recurrence corpus d rank)) \<and>
     (\<exists>c old calc. rounds corpus d k = Inr (c, rank_dict corpus old, calc) \<and>
        rounds corpus d (Suc k)
          = Inr (list_ex (\<lambda>P. \<bar>old P - recurrence corpus d old P\<bar> > 1 / 1000) (keys corpus),
                 rank_dict corpus (recurrence corpus d old),
                 rank_dict corpus (recurrence corpus d old)))"
proof -
  have dk: "distinct (keys corpus)" using assms(1) by (simp add: link_graph_def)
  have eq: "new_rank corpus d r = recurrence corpus d r" for r
    by (rule ext) (rule new_rank_recurrence [OF assms(1)])
  have step: "calc = [] \<or> keys calc = keys corpus \<Longrightarrow>
     pagerank_round corpus d (length corpus) ((1 - d) / real (length corpus))
           (rank_dict corpus r, calc)
       = Inr (list_ex (\<lambda>P. \<bar>r P - recurrence corpus d r P\<bar> > 1 / 1000) (keys corpus),
              rank_dict corpus (recurrence corpus d r),
              rank_dict corpus (recurrence corpus d r))" for r calc
    using pagerank_round_closed [OF dk, of calc d r] by (simp add: moves_def eq)
  obtain c old calc where v: "calc = [] \<or> keys calc = keys corpus"
    and r: "rounds corpus d k = Inr (c, rank_dict corpus old, calc)"
    using rounds_closed [OF dk, of d k] by blast
  have "rounds corpus d (Suc k)
          = Inr (list_ex (\<lambda>P. \<bar>old P - recurrence corpus d old P\<bar> > 1 / 1000) (keys corpus),
                 rank_dict corpus (recurrence corpus d old),
                 rank_dict corpus (recurrence corpus d old))"
    using r step [OF v, of old] by simp
  with r step [OF assms(2), of rank] show ?thesis by blast
qed

theorem pagerank_round_recurrence_witness:
  "link_graph [(''a'', [''b'']), (''b'', [''c'']), (''c'', [])] \<and>
   recurrence [(''a'', [''b'']), (''b'', [''c'']), (''c'', [])] (85 / 100) (\<lambda>P. 1 / 3) ''a'' = 13 / 90 \<and>
   recurrence [(''a'', [''b'']), (''b'', [''c'']), (''c'', [])] (85 / 100) (\<lambda>P. 1 / 3) ''b'' = 77 / 180 \<and>
   pagerank_round [(''a'', [''b'']), (''b'', [''c'']), (''c'', [])] (85 / 100) 3 ((1 - 85 / 100) / 3)
       ([(''a'', 1 / 3), (''b'', 1 / 3), (''c'', 1 / 3)], [])
     = Inr (True, [(''a'', 13 / 90), (''b'', 77 / 180), (''c'', 77 / 180)],
                  [(''a'', 13 / 90), (''b'', 77 / 180), (''c'', 77 / 180)])"
proof -
  let ?c = "[(''a'', [''b'']), (''b'', [''c'']), (''c'', [])]"
  have g: "link_graph ?c"
    by (simp add: link_graph_def closed_universe_def)
  have a: "recurrence ?c (85 / 100) (\<lambda>P. 1 / 3) ''a'' = 13 / 90"
    by (simp add: recurrence_def)
  have b: "recurrence ?c (85 / 100) (\<lambda>P. 1 / 3) ''b'' = 77 / 180"
    by (simp add: recurrence_def)
  have c: "recurrence ?c (85 / 100) (\<lambda>P. 1 / 3) ''c'' = 77 / 180"
    by (simp add: recurrence_def)
  have len: "length ?c = 3" by simp
  have ks: "keys ?c = [''a'', ''b'', ''c'']" by simp
  have rd: "rank_dict ?c f = [(''a'', f ''a''), (''b'', f ''b''), (''c'', f ''c'')]" for f :: "string \<Rightarrow> real"
    by (simp add: rank_dict_def)
  have cond: "list_ex (\<lambda>P. \<bar>1 / 3 - recurrence ?c (85 / 100) (\<lambda>P. 1 / 3) P\<bar> > 1 / 1000) (keys ?c)"
    unfolding ks list_ex_Cons_iff list_ex_Nil_iff a b c by simp
  note inst = conjunct1 [OF pagerank_round_recurrence [OF g disjI1 [OF refl], of "85 / 100" "\<lambda>P. 1 / 3" 0]]
  have "pagerank_round ?c (85 / 100) 3 ((1 - 85 / 100) / 3)
       ([(''a'', 1 / 3), (''b'', 1 / 3), (''c'', 1 / 3)], [])
     = Inr (True, [(''a'', 13 / 90), (''b'', 77 / 180), (''c'', 77 / 180)],
                  [(''a'', 13 / 90), (''b'', 77 / 180), (''c'', 77 / 180)])"
    using inst cond unfolding len rd a b c by simp
  with g a b show ?thesis by simp
qed

lemma getitem_rank_dict:
  "getitem (rank_dict corpus f) P = (if P \<in> set (keys corpus) then Inr (f P) else Inl KeyError)"
  by (simp add: rank_dict_def getitem_map_pair)



lemma values_of_rank_dict: "values_of (rank_dict corpus f) = map f (keys corpus)"
  by (simp add: rank_dict_def)

lemma sum_list_bounded:
  fixes f :: "'a \<Rightarrow> real"
  shows "(\<And>x. x \<in> set xs \<Longrightarrow> f x \<le> c) \<Longrightarrow> sum_list (map f xs) \<le> real (length xs) * c"
proof (induction xs)
  case Nil
  show ?case by simp
next
  case (Cons a xs)
  have "f a \<le> c" using Cons.prems by simp
  moreover have "sum_list (map f xs) \<le> real (length xs) * c"
    using Cons.prems by (intro Cons.IH) simp
  ultimately show ?case by (simp add: distrib_right)
qed

lemma still_imp_small:
  assumes "\<not> moves corpus d r"
  shows "sum_list (map (\<lambda>P. \<bar>new_rank corpus d r P - r P\<bar>) (keys corpus))
     \<le> real (length corpus) * (1 / 1000)"
proof -
  have "\<bar>new_rank corpus d r P - r P\<bar> \<le> 1 / 1000" if "P \<in> set (keys corpus)" for P
    using assms that by (auto simp: moves_def list_ex_iff abs_minus_commute not_less)
  from sum_list_bounded [of "keys corpus" "\<lambda>P. \<bar>new_rank corpus d r P - r P\<bar>", OF this]
  show ?thesis by simp
qed

text \<open>
  Claim C8, amended.  For a link graph with at least one page and a damping factor \<open>d\<close> in
  (0,1): the round after the last round of \<^verbatim>\<open>iterate_pagerank\<close>, run on the state the loop
  ended in, changes the ranks of all pages together by at most \<open>d * N * 0.001\<close> (the sum of
  the absolute changes), so the rank of every page by at most \<open>d * N * 0.001\<close>, \<open>N\<close> the number
  of pages.
\<close>

theorem extra_round_bound:
  assumes "link_graph corpus" "corpus \<noteq> []" "0 < d" "d < 1"
  shows "\<exists>k ranks calc c after ac.
     rounds corpus d (Suc k) = Inr (False, ranks, calc) \<and>
     iterate_pagerank corpus d = Some (Inr ranks) \<and>
     pagerank_round corpus d (length corpus) ((1 - d) / real (length corpus)) (ranks, calc)
       = Inr (c, after, ac) \<and>
     keys ranks = keys corpus \<and> keys after = keys corpus \<and>
     sum_list (map (\<lambda>(x, y). \<bar>x - y\<bar>) (zip (values_of ranks) (values_of after)))
       \<le> d * real (length corpus) / 1000 \<and>
     (\<forall>P x y. getitem ranks P = Inr x \<and> getitem after P = Inr y \<longrightarrow>
        \<bar>x - y\<bar> \<le> d * real (length corpus) / 1000)"
proof -
  let ?U = "new_rank corpus d"
  let ?r0 = "\<lambda>P. 1 / real (length corpus)"
  have dk: "distinct (keys corpus)" using assms(1) by (simp add: link_graph_def)
  have d0: "0 \<le> d" using assms(3) by simp
  obtain k where still: "\<not> moves corpus d ((?U ^^ k) ?r0)"
    and res: "iterate_pagerank corpus d = Some (Inr (rank_dict corpus ((?U ^^ Suc k) ?r0)))"
    using iterate_pagerank_closed [OF dk assms(2) d0 assms(4)] by blast
  define r where "r = (?U ^^ Suc k) ?r0"
  obtain calc where v: "calc = [] \<or> keys calc = keys corpus"
    and last: "rounds corpus d (Suc k) = Inr (False, rank_dict corpus r, calc)"
    using rounds_closed [OF dk, of d "Suc k"] still unfolding r_def by auto
  have extra: "pagerank_round corpus d (length corpus) ((1 - d) / real (length corpus))
       (rank_dict corpus r, calc)
       = Inr (moves corpus d r, rank_dict corpus (?U r), rank_dict corpus (?U r))"
    by (rule pagerank_round_closed [OF dk v])
  have "sum_list (map (\<lambda>P. \<bar>?U r P - r P\<bar>) (keys corpus))
      \<le> d * sum_list (map (\<lambda>P. \<bar>?U ((?U ^^ k) ?r0) P - (?U ^^ k) ?r0 P\<bar>) (keys corpus))"
    unfolding r_def using new_rank_contracts [OF dk d0, of "(?U ^^ Suc k) ?r0" "(?U ^^ k) ?r0"]
    by simp
  also have "\<dots> \<le> d * (real (length corpus) * (1 / 1000))"
    using still_imp_small [OF still] d0 by (rule mult_left_mono)
  finally have total: "sum_list (map (\<lambda>P. \<bar>?U r P - r P\<bar>) (keys corpus))
      \<le> d * real (length corpus) / 1000" by simp
  have z: "map (\<lambda>(x, y). \<bar>x - y\<bar>) (zip (values_of (rank_dict corpus r)) (values_of (rank_dict corpus (?U r))))
      = map (\<lambda>P. \<bar>r P - ?U r P\<bar>) (keys corpus)"
    by (simp add: values_of_rank_dict zip_map_map zip_same_conv_map comp_def)
  have sum: "sum_list (map (\<lambda>(x, y). \<bar>x - y\<bar>)
        (zip (values_of (rank_dict corpus r)) (values_of (rank_dict corpus (?U r)))))
      \<le> d * real (length corpus) / 1000"
    unfolding z using total by (simp add: abs_minus_commute)
  have each: "\<forall>P x y. getitem (rank_dict corpus r) P = Inr x \<and>
        getitem (rank_dict corpus (?U r)) P = Inr y \<longrightarrow> \<bar>x - y\<bar> \<le> d * real (length corpus) / 1000"
  proof (intro allI impI)
    fix P x y
    assume a: "getitem (rank_dict corpus r) P = Inr x \<and> getitem (rank_dict corpus (?U r)) P = Inr y"
    then have P: "P \<in> set (keys corpus)" and x: "x = r P" and y: "y = ?U r P"
      by (auto simp: getitem_rank_dict split: if_splits)
    have "\<bar>?U r P - r P\<bar> \<le> sum_list (map (\<lambda>P. \<bar>?U r P - r P\<bar>) (keys corpus))"
      using elem_le_sum_list_abs [OF P, of "\<lambda>P. ?U r P - r P"] .
    with total show "\<bar>x - y\<bar> \<le> d * real (length corpus) / 1000"
      unfolding x y by (simp add: abs_minus_commute)
  qed
  have k1: "keys (rank_dict corpus r) = keys corpus" "keys (rank_dict corpus (?U r)) = keys corpus"
    by simp_all
  from last res [folded r_def] extra k1 sum each show ?thesis by blast
qed

theorem extra_round_bound_witness:
  "link_graph [(''a'', [''b'']), (''b'', [''a''])] \<and>
   iterate_pagerank [(''a'', [''b'']), (''b'', [''a''])] (85 / 100)
     = Some (Inr [(''a'', 1 / 2), (''b'', 1 / 2)]) \<and>
   (\<exists>k ranks calc c after ac.
      rounds [(''a'', [''b'']), (''b'', [''a''])] (85 / 100) (Suc k) = Inr (False, ranks, calc) \<and>
      iterate_pagerank [(''a'', [''b'']), (''b'', [''a''])] (85 / 100) = Some (Inr ranks) \<and>
      pagerank_round [(''a'', [''b'']), (''b'', [''a''])] (85 / 100) 2 ((1 - 85 / 100) / 2)
          (ranks, calc) = Inr (c, after, ac) \<and>
      sum_list (map (\<lambda>(x, y). \<bar>x - y\<bar>) (zip (values_of ranks) (values_of after)))
        \<le> 85 / 100 * 2 / 1000)"
proof -
  let ?c = "[(''a'', [''b'']), (''b'', [''a''])]"
  have g: "link_graph ?c"
    by (simp add: link_graph_def closed_universe_def)
  have it: "iterate_pagerank ?c (85 / 100) = Some (Inr [(''a'', 1 / 2), (''b'', 1 / 2)])"
    unfolding iterate_pagerank_def Let_def
    by (subst iterate_loop.simps)
       (simp add: initial_ranks_def pagerank_round_def calculate_def link_sum_def store_def)
  have len: "length ?c = 2" by simp
  from extra_round_bound [OF g, of "85 / 100"]
  obtain k ranks calc c after ac where
    "rounds ?c (85 / 100) (Suc k) = Inr (False, ranks, calc)"
    "iterate_pagerank ?c (85 / 100) = Some (Inr ranks)"
    "pagerank_round ?c (85 / 100) (length ?c) ((1 - 85 / 100) / real (length ?c)) (ranks, calc)
       = Inr (c, after, ac)"
    "sum_list (map (\<lambda>(x, y). \<bar>x - y\<bar>) (zip (values_of ranks) (values_of after)))
       \<le> 85 / 100 * real (length ?c) / 1000"
    by auto
  then have "\<exists>k ranks calc c after ac.
      rounds ?c (85 / 100) (Suc k) = Inr (False, ranks, calc) \<and>
      iterate_pagerank ?c (85 / 100) = Some (Inr ranks) \<and>
      pagerank_round ?c (85 / 100) 2 ((1 - 85 / 100) / 2) (ranks, calc) = Inr (c, after, ac) \<and>
      sum_list (map (\<lambda>(x, y). \<bar>x - y\<bar>) (zip (values_of ranks) (values_of after)))
        \<le> 85 / 100 * 2 / 1000"
    unfolding len by (intro exI [of _ k] exI [of _ ranks] exI [of _ calc] exI [of _ c]
        exI [of _ after] exI [of _ ac]) simp
  with g it show ?thesis by blast
qed

text \<open>
  Claim C7 (what the program does).  On the corpus of one page without links,
  \<^verbatim>\<open>iterate_pagerank\<close> returns rank 1 for the page, and \<^verbatim>\<open>sample_pagerank\<close> with \<open>n = 2\<close>
  returns rank 1/2 for it, whatever the random source draws: the loop counts one visit
  and the counter is divided by 2.
\<close>

theorem single_page_ranks:
  "sample_pagerank [(p :: 'p, [])] d 2 rs = Inr [(p, 1 / 2)] \<and>
   iterate_pagerank [(p, [])] d = Some (Inr [(p, 1)])"
proof -
  let ?c = "[(p, [] :: 'p list)]"
  have s: "sample_pagerank ?c d 2 rs = Inr [(p, 1 / 2)]"
    using sample_pagerank_single_page [of 2 p d rs] by simp
  have dk: "distinct (keys ?c)" by simp
  have n: "new_rank ?c d (\<lambda>P. 1) p = 1"
    by (simp add: new_rank_def contribution_def)
  have still: "\<not> moves ?c d (\<lambda>P. 1)"
    by (simp add: moves_def n)
  have "iterate_loop ?c d (length ?c) ((1 - d) / real (length ?c)) (rank_dict ?c (\<lambda>P. 1), [])
     = Some (Inr (rank_dict ?c ((new_rank ?c d ^^ Suc 0) (\<lambda>P. 1))))"
    using still by (intro iterate_loop_first_still [OF dk]) simp_all
  then have "iterate_pagerank ?c d = Some (Inr [(p, 1)])"
    by (simp add: iterate_pagerank_def initial_ranks_def rank_dict_def n)
  with s show ?thesis by simp
qed

section \<open>The update keeps the sum of the ranks\<close>

lemma column_sum_eq_1:
  assumes "distinct ks" "length ks = N" "0 < N" "distinct links" "set links \<subseteq> set ks"
  shows "sum_list (map (\<lambda>P. contribution N (\<lambda>Q. 1) P (Q, links)) ks) = 1"
proof (cases "links = []")
  case True
  then have "sum_list (map (\<lambda>P. contribution N (\<lambda>Q. 1) P (Q, links)) ks) = real N * (1 / real N)"
    using assms(2) by (simp add: contribution_def sum_list_triv)
  then show ?thesis using assms(3) by simp
next
  case False
  then have "sum_list (map (\<lambda>P. contribution N (\<lambda>Q. 1) P (Q, links)) ks)
      = sum_list (map (\<lambda>P. if P \<in> set links then 1 / real (length links) else 0) ks)"
    by (simp add: contribution_def)
  also have "\<dots> = real (length links) * (1 / real (length links))"
    by (rule sum_list_indicator [OF assms(1,4,5)])
  finally show ?thesis using False by simp
qed

lemma new_rank_sum:
  assumes "link_graph corpus" "corpus \<noteq> []"
  shows "sum_list (map (new_rank corpus d r) (keys corpus))
     = (1 - d) + d * sum_list (map r (keys corpus))"
proof -
  let ?N = "length corpus"
  have dk: "distinct (keys corpus)" using assms(1) by (simp add: link_graph_def)
  have N: "0 < ?N" using assms(2) by simp
  have col: "sum_list (map (\<lambda>P. contribution ?N (\<lambda>Q. 1) P e) (keys corpus)) = 1"
    if "e \<in> set corpus" for e
  proof -
    obtain Q links where e: "e = (Q, links)" by (cases e)
    note ls = link_graph_links [OF assms(1) that [unfolded e]]
    show ?thesis unfolding e by (rule column_sum_eq_1 [OF dk _ N ls]) simp
  qed
  have "sum_list (map (\<lambda>P. sum_list (map (contribution ?N r P) corpus)) (keys corpus))
      = sum_list (map (\<lambda>e. sum_list (map (\<lambda>P. contribution ?N r P e) (keys corpus))) corpus)"
    by (rule sum_list_swap)
  also have "\<dots> = sum_list (map (\<lambda>e. sum_list (map (\<lambda>P. contribution ?N (\<lambda>Q. 1) P e) (keys corpus)) * r (fst e)) corpus)"
    unfolding contribution_linear [of _ r] by (simp add: sum_list_mult_const)
  also have "\<dots> = sum_list (map (\<lambda>e. r (fst e)) corpus)"
    by (rule arg_cong [where f = sum_list], rule map_cong [OF refl]) (simp add: col)
  also have "\<dots> = sum_list (map r (keys corpus))"
    by (simp add: keys_def comp_def)
  finally have inner: "sum_list (map (\<lambda>P. sum_list (map (contribution ?N r P) corpus)) (keys corpus))
      = sum_list (map r (keys corpus))" .
  have "sum_list (map (new_rank corpus d r) (keys corpus))
      = sum_list (map (\<lambda>P. (1 - d) / real ?N) (keys corpus))
        + sum_list (map (\<lambda>P. d * sum_list (map (contribution ?N r P) corpus)) (keys corpus))"
    unfolding new_rank_def by (simp add: sum_list_addf)
  also have "\<dots> = (1 - d) + d * sum_list (map r (keys corpus))"
    using N by (simp add: sum_list_triv sum_list_const_mult inner)
  finally show ?thesis .
qed

lemma iterates_sum:
  assumes "link_graph corpus" "corpus \<noteq> []"
  shows "sum_list (map ((new_rank corpus d ^^ k) (\<lambda>P. 1 / real (length corpus))) (keys corpus)) = 1"
proof (induction k)
  case 0
  show ?case using assms(2) by (simp add: sum_list_triv)
next
  case (Suc k)
  show ?case using new_rank_sum [OF assms, of d] Suc by simp
qed

lemma iterate_pagerank_sum:
  assumes "link_graph corpus" "corpus \<noteq> []" "0 \<le> d" "d < 1"
  shows "\<exists>ranks. iterate_pagerank corpus d = Some (Inr ranks) \<and> sum_list (values_of ranks) = 1"
proof -
  have dk: "distinct (keys corpus)" using assms(1) by (simp add: link_graph_def)
  obtain k where "iterate_pagerank corpus d
       = Some (Inr (rank_dict corpus ((new_rank corpus d ^^ Suc k) (\<lambda>P. 1 / real (length corpus)))))"
    using iterate_pagerank_closed [OF dk assms(2,3,4)] by blast
  moreover have "sum_list (values_of (rank_dict corpus
       ((new_rank corpus d ^^ Suc k) (\<lambda>P. 1 / real (length corpus))))) = 1"
    unfolding values_of_rank_dict by (rule iterates_sum [OF assms(1,2)])
  ultimately show ?thesis by blast
qed

text \<open>
  Claim C4 (what the program does).  For a link graph with at least one page, a damping
  factor in (0,1) and \<open>1 \<le> n\<close>: the ranks \<^verbatim>\<open>iterate_pagerank\<close> returns sum to 1.  The ranks
  \<^verbatim>\<open>sample_pagerank\<close> returns sum to \<open>(n - 1) / n\<close>, whatever the random source draws: the
  loop counts \<open>n - 1\<close> visits and the counters are divided by \<open>n\<close>.  That sum is 1/2 for
  \<open>n = 2\<close> and 0 for \<open>n = 1\<close>, where the docstring of the function says the values should
  sum to 1.
\<close>

theorem estimators_sum:
  assumes "link_graph corpus" "corpus \<noteq> []" "0 < d" "d < 1" "1 \<le> n"
  shows "(\<exists>ranks. sample_pagerank corpus d n rs = Inr ranks \<and>
            sum_list (values_of ranks) = (real_of_int n - 1) / real_of_int n) \<and>
         (\<exists>ranks. iterate_pagerank corpus d = Some (Inr ranks) \<and> sum_list (values_of ranks) = 1)"
proof -
  obtain counts where s: "sum_list (values_of counts) = n - 1"
    and r: "sample_pagerank corpus d n rs
       = Inr (map (\<lambda>(key, c). (key, real_of_int c / real_of_int n)) counts)"
    using sample_pagerank_closed [OF assms(1,2,5), of rs d] by blast
  have "sum_list (values_of (map (\<lambda>(key, c). (key, real_of_int c / real_of_int n)) counts))
     = (real_of_int n - 1) / real_of_int n"
    unfolding sum_values_normalized s by simp
  with r have "\<exists>ranks. sample_pagerank corpus d n rs = Inr ranks \<and>
            sum_list (values_of ranks) = (real_of_int n - 1) / real_of_int n" by blast
  moreover have "\<exists>ranks. iterate_pagerank corpus d = Some (Inr ranks) \<and> sum_list (values_of ranks) = 1"
    using assms(3) by (intro iterate_pagerank_sum [OF assms(1,2) _ assms(4)]) simp
  ultimately show ?thesis by blast
qed

theorem estimators_sum_witness:
  "link_graph [(''a'', [''b'']), (''b'', [''a''])] \<and>
   (\<exists>ranks. sample_pagerank [(''a'', [''b'']), (''b'', [''a''])] (85 / 100) 2
                \<lparr>start_index = 0, uniform = \<lambda>i. 1 / 2\<rparr> = Inr ranks \<and>
      sum_list (values_of ranks) = 1 / 2 \<and> \<bar>sum_list (values_of ranks) - 1\<bar> > 1 / 100) \<and>
   (\<exists>ranks. iterate_pagerank [(''a'', [''b'']), (''b'', [''a''])] (85 / 100) = Some (Inr ranks) \<and>
      sum_list (values_of ranks) = 1)"
proof -
  have g: "link_graph [(''a'', [''b'']), (''b'', [''a''])]"
    by (simp add: link_graph_def closed_universe_def)
  from estimators_sum [OF g, of "85 / 100" 2 "\<lparr>start_index = 0, uniform = \<lambda>i. 1 / 2\<rparr>"]
  obtain ranks ranks' where "sample_pagerank [(''a'', [''b'']), (''b'', [''a''])] (85 / 100) 2
                \<lparr>start_index = 0, uniform = \<lambda>i. 1 / 2\<rparr> = Inr ranks"
    and "sum_list (values_of ranks) = 1 / 2"
    and "iterate_pagerank [(''a'', [''b'']), (''b'', [''a''])] (85 / 100) = Some (Inr ranks')"
    and "sum_list (values_of ranks') = 1" by auto
  with g show ?thesis by auto
qed

section \<open>When transition_model raises\<close>






section \<open>The loop in double arithmetic, when it returns\<close>

lemma bind_err_Inr_right [simp]: "bind_err m Inr = m"
  by (cases m) auto














section \<open>A corpus on which the loop in double arithmetic never ends\<close>










section \<open>Seven pages: the rounds in exact and in double arithmetic\<close>






end
